theory Spec2Isabelle
  imports Main "HOL-Library.Word"
begin

unbundle bit_operations_syntax

section \<open>Machine integers and byte streams\<close>

type_synonym u8 = "8 word"
type_synonym u16 = "16 word"
type_synonym u32 = "32 word"
type_synonym u64 = "64 word"

text \<open>
  A \<open>std::istream\<close> over a buffer: the bytes not yet extracted, and the failure state
  that \<open>operator bool\<close> reads. \<open>read\<close> sets \<open>failbit\<close> and \<open>eofbit\<close> together, so one
  flag stands for both.
\<close>

record istream =
  buf :: "u8 list"
  failbit :: bool

definition istream_of :: "u8 list \<Rightarrow> istream" where
  "istream_of bs = \<lparr>buf = bs, failbit = False\<rparr>"

definition setstate_failbit :: "istream \<Rightarrow> istream" where
  "setstate_failbit s = s\<lparr>failbit := True\<rparr>"

text \<open>
  \<open>is.read(p, n)\<close>: on a stream that is not good nothing is extracted; otherwise up to
  \<open>n\<close> bytes are extracted and stored, and fewer than \<open>n\<close> of them is a failure. The
  result is the extracted bytes and the stream afterwards.
\<close>

definition is_read :: "istream \<Rightarrow> nat \<Rightarrow> u8 list \<times> istream" where
  "is_read s n =
     (if failbit s then ([], s)
      else if length (buf s) < n then (buf s, \<lparr>buf = [], failbit = True\<rparr>)
      else (take n (buf s), s\<lparr>buf := drop n (buf s)\<rparr>))"

text \<open>Storing extracted bytes into an array \<open>rep\<close> from offset \<open>off\<close> on.\<close>

definition store :: "u8 list \<Rightarrow> nat \<Rightarrow> u8 list \<Rightarrow> u8 list" where
  "store rep off bs = take off rep @ bs @ drop (off + length bs) rep"

section \<open>The IPv4 header\<close>

type_synonym ipv4_header = "u8 list"

definition ipv4_header_init :: ipv4_header where
  "ipv4_header_init = replicate 60 0"

definition ipv4_decode :: "ipv4_header \<Rightarrow> nat \<Rightarrow> nat \<Rightarrow> u16" where
  "ipv4_decode rep a b = push_bit 8 (ucast (rep ! a)) + ucast (rep ! b)"

definition ipv4_version :: "ipv4_header \<Rightarrow> u8" where
  "ipv4_version rep = drop_bit 4 (rep ! 0) AND 0xF"

definition ipv4_header_length :: "ipv4_header \<Rightarrow> u16" where
  "ipv4_header_length rep = ucast (rep ! 0 AND 0xF) * 4"



text \<open>
  \<open>header.header_length() - 20\<close> is computed in \<open>int\<close> and kept in a signed
  \<open>std::streamsize\<close>, so it is negative for a length field below 5.
\<close>

definition ipv4_options_length :: "ipv4_header \<Rightarrow> int" where
  "ipv4_options_length rep = uint (ipv4_header_length rep) - 20"

text \<open>\<open>operator>>(std::istream&, ipv4_header&)\<close>.\<close>

definition ipv4_extract :: "istream \<Rightarrow> ipv4_header \<Rightarrow> istream \<times> ipv4_header" where
  "ipv4_extract s header =
     (let (fixed, s1) = is_read s 20;
          h1 = store header 0 fixed;
          s2 = (if ipv4_version h1 \<noteq> 4 then setstate_failbit s1 else s1);
          options_length = ipv4_options_length h1
      in if options_length < 0 \<or> options_length > 40 then (setstate_failbit s2, h1)
         else (let (opts, s3) = is_read s2 (nat options_length)
               in (s3, store h1 20 opts)))"

section \<open>The ICMP header\<close>

type_synonym icmp_header = "u8 list"

definition icmp_header_init :: icmp_header where
  "icmp_header_init = replicate 8 0"

definition icmp_decode :: "icmp_header \<Rightarrow> nat \<Rightarrow> nat \<Rightarrow> u16" where
  "icmp_decode rep a b = push_bit 8 (ucast (rep ! a)) + ucast (rep ! b)"

definition icmp_encode :: "icmp_header \<Rightarrow> nat \<Rightarrow> nat \<Rightarrow> u16 \<Rightarrow> icmp_header" where
  "icmp_encode rep a b n = (rep[a := ucast (drop_bit 8 n)])[b := ucast (n AND 0xFF)]"

definition echo_reply :: u8 where "echo_reply = 0"
definition echo_request :: u8 where "echo_request = 8"

definition icmp_type :: "icmp_header \<Rightarrow> u8" where
  "icmp_type rep = rep ! 0"

definition icmp_code :: "icmp_header \<Rightarrow> u8" where
  "icmp_code rep = rep ! 1"

definition icmp_checksum :: "icmp_header \<Rightarrow> u16" where
  "icmp_checksum rep = icmp_decode rep 2 3"

definition icmp_identifier :: "icmp_header \<Rightarrow> u16" where
  "icmp_identifier rep = icmp_decode rep 4 5"

definition icmp_sequence_number :: "icmp_header \<Rightarrow> u16" where
  "icmp_sequence_number rep = icmp_decode rep 6 7"

definition icmp_set_type :: "icmp_header \<Rightarrow> u8 \<Rightarrow> icmp_header" where
  "icmp_set_type rep n = rep[0 := n]"

definition icmp_set_code :: "icmp_header \<Rightarrow> u8 \<Rightarrow> icmp_header" where
  "icmp_set_code rep n = rep[1 := n]"

definition icmp_set_checksum :: "icmp_header \<Rightarrow> u16 \<Rightarrow> icmp_header" where
  "icmp_set_checksum rep n = icmp_encode rep 2 3 n"

definition icmp_set_identifier :: "icmp_header \<Rightarrow> u16 \<Rightarrow> icmp_header" where
  "icmp_set_identifier rep n = icmp_encode rep 4 5 n"

definition icmp_set_sequence_number :: "icmp_header \<Rightarrow> u16 \<Rightarrow> icmp_header" where
  "icmp_set_sequence_number rep n = icmp_encode rep 6 7 n"

text \<open>\<open>operator>>(std::istream&, icmp_header&)\<close>: eight bytes are read into \<open>rep_\<close>.\<close>

definition icmp_extract :: "istream \<Rightarrow> icmp_header \<Rightarrow> istream \<times> icmp_header" where
  "icmp_extract s header = (let (bs, s1) = is_read s 8 in (s1, store header 0 bs))"

section \<open>The checksum\<close>

text \<open>
  The \<open>while\<close> loop of \<open>compute_checksum\<close> over the body, on the \<open>unsigned int\<close>
  accumulator: a high byte, then a low byte if there is one.
\<close>

fun checksum_body :: "u32 \<Rightarrow> u8 list \<Rightarrow> u32" where
  "checksum_body acc [] = acc"
| "checksum_body acc [x] = acc + push_bit 8 (ucast x)"
| "checksum_body acc (x # y # rest) = checksum_body (acc + push_bit 8 (ucast x) + ucast y) rest"

definition compute_checksum :: "icmp_header \<Rightarrow> u8 list \<Rightarrow> icmp_header" where
  "compute_checksum header body =
     (let sum0 = push_bit 8 (ucast (icmp_type header)) + ucast (icmp_code header)
                 + ucast (icmp_identifier header) + ucast (icmp_sequence_number header);
          sum1 = checksum_body sum0 body;
          sum2 = drop_bit 16 sum1 + (sum1 AND 0xFFFF);
          sum3 = sum2 + drop_bit 16 sum2
      in icmp_set_checksum header (ucast (NOT sum3)))"

text \<open>
  The checksum as the specification words it, on unbounded numbers: the body two bytes
  at a time, big-endian, a last odd byte as the high byte of a word.
\<close>

fun body_words :: "u8 list \<Rightarrow> nat list" where
  "body_words [] = []"
| "body_words [x] = [unat x * 256]"
| "body_words (x # y # rest) = (unat x * 256 + unat y) # body_words rest"

definition spec_word_sum :: "icmp_header \<Rightarrow> u8 list \<Rightarrow> nat" where
  "spec_word_sum header body =
     unat (push_bit 8 (ucast (icmp_type header)) OR ucast (icmp_code header) :: u16)
     + unat (icmp_identifier header) + unat (icmp_sequence_number header)
     + sum_list (body_words body)"

definition spec_fold_twice :: "nat \<Rightarrow> nat" where
  "spec_fold_twice s = (let f = s div 65536 + s mod 65536 in f + f div 65536)"

definition spec_internet_checksum :: "icmp_header \<Rightarrow> u8 list \<Rightarrow> u16" where
  "spec_internet_checksum header body =
     NOT (of_nat (spec_fold_twice (spec_word_sum header body)))"

section \<open>The prober\<close>

text \<open>
  The environment of a run: the process id, whether the raw socket can be opened,
  which \<open>send_to\<close> calls fail (by the sequence number of the probe), and the
  completions the event loop delivers. Times are milliseconds on the steady clock,
  counted from the first send.
\<close>

datatype exn = system_error

datatype completion = HandleTimeout | StartSend

datatype event =
    Expire nat
  | Datagram "u8 list"

text \<open>
  The members of \<open>pinger\<close>. \<open>timer\<close> holds the expiry and the handler of the pending
  wait, \<open>receiving\<close> says that an \<open>async_receive\<close> is pending, and \<open>wire\<close> lists
  the datagrams handed to \<open>send_to\<close>, with their destination.
\<close>

record pinger =
  socket_open :: bool
  timer :: "(nat \<times> completion) option"
  time_sent :: nat
  reply_buffer :: "u8 list"
  receiving :: bool
  destination :: u32
  num_replies :: u64
  sequence_number :: u8
  count :: u8
  timer_interval :: u16
  wire :: "(u32 \<times> u8 list) list"

definition get_identifier :: "u32 \<Rightarrow> u16" where
  "get_identifier pid = ucast pid"

text \<open>
  The constructor opens the socket, which throws when the socket cannot be opened, and
  sets the reply count and the sequence number to zero. The members it leaves
  unwritten (\<open>count_\<close>, \<open>timer_interval_\<close>, the address) are zero here; \<open>ping\<close>
  writes them before they are read.
\<close>

definition pinger_init :: "bool \<Rightarrow> exn + pinger" where
  "pinger_init socket_ok =
     (if socket_ok
      then Inr \<lparr>socket_open = True, timer = None, time_sent = 0, reply_buffer = [],
                receiving = False, destination = 0, num_replies = 0, sequence_number = 0,
                count = 0, timer_interval = 0, wire = []\<rparr>
      else Inl system_error)"

definition probe_body :: "u8 list" where
  "probe_body = map of_char ''0123456789ABCDEFGHIJKLMNOPQRSTUVWXYZ''"

text \<open>
  \<open>start_send\<close> at clock reading \<open>now\<close>. A failing \<open>send_to\<close> throws after the
  sequence number and \<open>time_sent_\<close> have been written: \<open>Inl\<close> carries the exception
  and the object as the throw leaves it.
\<close>

definition start_send ::
  "u32 \<Rightarrow> (u8 \<Rightarrow> bool) \<Rightarrow> nat \<Rightarrow> pinger \<Rightarrow> (exn \<times> pinger) + pinger" where
  "start_send pid send_fails now st =
     (if sequence_number st \<ge> count st then Inr st
      else
        let body = probe_body;
            request0 = icmp_set_type icmp_header_init echo_request;
            request1 = icmp_set_code request0 0;
            request2 = icmp_set_identifier request1 (get_identifier pid);
            st1 = st\<lparr>sequence_number := sequence_number st + 1\<rparr>;
            request3 = icmp_set_sequence_number request2 (ucast (sequence_number st1));
            request4 = compute_checksum request3 body;
            request_buffer = request4 @ body;
            st2 = st1\<lparr>time_sent := now\<rparr>
        in if send_fails (sequence_number st2) then Inl (system_error, st2)
           else Inr (st2\<lparr>wire := wire st2 @ [(destination st2, request_buffer)],
                         timer := Some (time_sent st2 + unat (timer_interval st2), HandleTimeout)\<rparr>))"

text \<open>The handler of the first wait (the \<open>handle_timeout\<close> lambda).\<close>

definition handle_timeout :: "pinger \<Rightarrow> pinger" where
  "handle_timeout st =
     (if sequence_number st \<ge> count st then st\<lparr>socket_open := False\<rparr>
      else st\<lparr>timer := Some (time_sent st + unat (timer_interval st), StartSend)\<rparr>)"

definition start_receive :: "pinger \<Rightarrow> pinger" where
  "start_receive st = st\<lparr>reply_buffer := [], receiving := True\<rparr>"

text \<open>
  The handler of the receive (the \<open>handle_receive\<close> lambda), given the bytes
  transferred. The sequence numbers are compared after integer promotion.
\<close>

definition handle_receive :: "u32 \<Rightarrow> pinger \<Rightarrow> u8 list \<Rightarrow> pinger" where
  "handle_receive pid st bytes =
     (let committed = reply_buffer st @ bytes;
          (is1, ipv4_hdr) = ipv4_extract (istream_of committed) ipv4_header_init;
          (is2, icmp_hdr) = icmp_extract is1 icmp_header_init;
          st1 = st\<lparr>reply_buffer := buf is2\<rparr>;
          st2 = (if \<not> failbit is2 \<and> icmp_type icmp_hdr = echo_reply
                    \<and> icmp_identifier icmp_hdr = get_identifier pid
                    \<and> uint (icmp_sequence_number icmp_hdr) = uint (sequence_number st1)
                 then st1\<lparr>num_replies := num_replies st1 + 1\<rparr> else st1)
      in if sequence_number st2 < count st2 then start_receive st2 else st2)"

text \<open>
  Closing the socket aborts a pending receive: its handler runs with no bytes
  transferred.
\<close>

definition abort_receive :: "u32 \<Rightarrow> pinger \<Rightarrow> pinger" where
  "abort_receive pid st =
     (if \<not> socket_open st \<and> receiving st then handle_receive pid (st\<lparr>receiving := False\<rparr>) []
      else st)"

text \<open>
  One completion of the event loop. A wait completes only once the clock has reached
  its expiry; a datagram completes a pending receive, which takes at most the 1024
  bytes prepared for it. A completion with nothing pending for it changes nothing.
\<close>

definition io_step ::
  "u32 \<Rightarrow> (u8 \<Rightarrow> bool) \<Rightarrow> event \<Rightarrow> pinger \<Rightarrow> (exn \<times> pinger) + pinger" where
  "io_step pid send_fails ev st =
     (case ev of
        Expire t \<Rightarrow>
          (case timer st of
             None \<Rightarrow> Inr st
           | Some (expiry, h) \<Rightarrow>
               if t < expiry then Inr st
               else (case h of
                       HandleTimeout \<Rightarrow>
                         Inr (abort_receive pid (handle_timeout (st\<lparr>timer := None\<rparr>)))
                     | StartSend \<Rightarrow> start_send pid send_fails t (st\<lparr>timer := None\<rparr>)))
      | Datagram d \<Rightarrow>
          if receiving st \<and> socket_open st
          then Inr (handle_receive pid (st\<lparr>receiving := False\<rparr>) (take 1024 d))
          else Inr st)"

fun run_events ::
  "u32 \<Rightarrow> (u8 \<Rightarrow> bool) \<Rightarrow> event list \<Rightarrow> pinger \<Rightarrow> (exn \<times> pinger) + pinger" where
  "run_events pid send_fails [] st = Inr st"
| "run_events pid send_fails (ev # evs) st =
     (case io_step pid send_fails ev st of
        Inl x \<Rightarrow> Inl x
      | Inr st' \<Rightarrow> run_events pid send_fails evs st')"

text \<open>
  The latest reading of the clock among the listed completions, which come with
  readings that do not decrease; the run starts at reading 0.
\<close>

fun last_clock :: "nat \<Rightarrow> event list \<Rightarrow> nat" where
  "last_clock now [] = now"
| "last_clock now (Expire t # evs) = last_clock (max now t) evs"
| "last_clock now (Datagram d # evs) = last_clock now evs"

text \<open>
  Once the listed completions are through, at clock reading \<open>now\<close>, no further
  datagram arrives and each pending wait completes as soon as it can: at its expiry,
  or at once when the clock is past the expiry already. This goes on until no wait
  is pending.
\<close>

definition pending_waits :: "pinger \<Rightarrow> nat" where
  "pending_waits st =
     (case timer st of
        None \<Rightarrow> 0
      | Some (expiry, HandleTimeout) \<Rightarrow> 2 * (unat (count st) - unat (sequence_number st)) + 2
      | Some (expiry, StartSend) \<Rightarrow> 2 * (unat (count st) - unat (sequence_number st)) + 1)"

function drain ::
  "u32 \<Rightarrow> (u8 \<Rightarrow> bool) \<Rightarrow> nat \<Rightarrow> pinger \<Rightarrow> (exn \<times> pinger) + pinger" where
  "drain pid send_fails now st =
     (case timer st of
        None \<Rightarrow> Inr st
      | Some (expiry, h) \<Rightarrow>
          (case io_step pid send_fails (Expire (max now expiry)) st of
             Inl x \<Rightarrow> Inl x
           | Inr st' \<Rightarrow> drain pid send_fails (max now expiry) st'))"
  by pat_completeness auto

termination
proof (relation "measure (\<lambda>(pid, send_fails, now, st). pending_waits st)")
  show "wf (measure (\<lambda>(pid, send_fails, now, st). pending_waits st))" by simp
next
  fix pid :: u32 and send_fails :: "u8 \<Rightarrow> bool" and now :: nat and st :: pinger
    and x2 expiry h st'
  assume t: "timer st = Some x2" and x: "(expiry, h) = x2"
    and step: "io_step pid send_fails (Expire (max now expiry)) st = Inr st'"
  have keep: "timer (handle_receive pid s bs) = timer s
      \<and> count (handle_receive pid s bs) = count s
      \<and> sequence_number (handle_receive pid s bs) = sequence_number s" for s bs
    by (simp add: handle_receive_def start_receive_def Let_def split: prod.splits)
  have keep': "timer (abort_receive pid s) = timer s
      \<and> count (abort_receive pid s) = count s
      \<and> sequence_number (abort_receive pid s) = sequence_number s" for s
    by (simp add: abort_receive_def keep)
  have suc: "unat (a + 1) = unat a + 1" if "a < b" for a b :: u8
  proof -
    have "unat a < unat b" using that by (simp add: word_less_nat_alt)
    moreover have "unat b < 256" using unsigned_less [of b, where 'a = nat] by simp
    ultimately show ?thesis by (simp add: unat_word_ariths)
  qed
  have "pending_waits st' < pending_waits st"
  proof (cases h)
    case HandleTimeout
    with t x step have "st' = abort_receive pid (handle_timeout (st\<lparr>timer := None\<rparr>))"
      by (auto simp: io_step_def)
    with t x HandleTimeout show ?thesis
      by (auto simp: pending_waits_def keep' handle_timeout_def)
  next
    case StartSend
    with t x step
    have s: "start_send pid send_fails (max now expiry) (st\<lparr>timer := None\<rparr>) = Inr st'"
      by (auto simp: io_step_def)
    show ?thesis
    proof (cases "sequence_number st \<ge> count st")
      case True
      with s t x StartSend show ?thesis
        by (auto simp: start_send_def pending_waits_def)
    next
      case False
      then have lt: "sequence_number st < count st" by simp
      then have "unat (sequence_number st) < unat (count st)" by (simp add: word_less_nat_alt)
      with s t x StartSend False suc [OF lt] show ?thesis
        by (auto simp: start_send_def pending_waits_def Let_def split: if_splits)
    qed
  qed
  then show "((pid, send_fails, max now expiry, st'), (pid, send_fails, now, st))
      \<in> measure (\<lambda>(pid, send_fails, now, st). pending_waits st)"
    by simp
qed

declare drain.simps [simp del]

text \<open>\<open>io_context::run\<close>: the completions of the run, until no work is left.\<close>

definition io_context_run ::
  "u32 \<Rightarrow> (u8 \<Rightarrow> bool) \<Rightarrow> event list \<Rightarrow> pinger \<Rightarrow> (exn \<times> pinger) + pinger" where
  "io_context_run pid send_fails events st =
     (case run_events pid send_fails events st of
        Inl x \<Rightarrow> Inl x
      | Inr st' \<Rightarrow> drain pid send_fails (last_clock 0 events) st')"

section \<open>The entry point\<close>

text \<open>
  The object \<open>p\<close> when \<open>ping\<close> reaches its \<open>return\<close>. The constructor runs before
  the \<open>try\<close> block, so its exception leaves \<open>ping\<close>; an exception of the block is
  caught, and \<open>p\<close> stays as the throw left it (\<open>object_after\<close>).
\<close>

definition object_after :: "(exn \<times> pinger) + pinger \<Rightarrow> pinger" where
  "object_after r = (case r of Inl (e, p') \<Rightarrow> p' | Inr p' \<Rightarrow> p')"

definition ping_run ::
  "u32 \<Rightarrow> bool \<Rightarrow> (u8 \<Rightarrow> bool) \<Rightarrow> event list \<Rightarrow> u32 \<Rightarrow> u8 \<Rightarrow> u16 \<Rightarrow> exn + pinger" where
  "ping_run pid socket_ok send_fails events address cnt timer_milliseconds =
     (case pinger_init socket_ok of
        Inl e \<Rightarrow> Inl e
      | Inr p0 \<Rightarrow>
          let p = p0\<lparr>destination := address,
                     count := (if cnt < 2 then 2 else cnt),
                     timer_interval := timer_milliseconds\<rparr>
          in Inr (object_after
                    (case start_send pid send_fails 0 p of
                       Inl x \<Rightarrow> Inl x
                     | Inr p1 \<Rightarrow> io_context_run pid send_fails events (start_receive p1))))"

text \<open>The returned expression: \<open>(uint8_t)p.num_replies_ > p.count_ / 2\<close>.\<close>

definition ping_result :: "pinger \<Rightarrow> bool" where
  "ping_result p = (uint (ucast (num_replies p) :: u8) > uint (count p) div 2)"

definition ping ::
  "u32 \<Rightarrow> bool \<Rightarrow> (u8 \<Rightarrow> bool) \<Rightarrow> event list \<Rightarrow> u32 \<Rightarrow> u8 \<Rightarrow> u16 \<Rightarrow> exn + bool" where
  "ping pid socket_ok send_fails events address cnt timer_milliseconds =
     (case ping_run pid socket_ok send_fails events address cnt timer_milliseconds of
        Inl e \<Rightarrow> Inl e
      | Inr p \<Rightarrow> Inr (ping_result p))"

section \<open>The claims' own notions\<close>

text \<open>
  A reply that counts, in the words of the specification and on the wire format: a
  datagram whose IPv4 header (version 4, at least 20 bytes long by its length field)
  and 8-byte ICMP header are both there, with type Echo Reply, the identifier
  \<open>token\<close> and the sequence number \<open>sq\<close>, both big-endian.
\<close>

definition spec_matching_reply :: "u16 \<Rightarrow> u8 \<Rightarrow> u8 list \<Rightarrow> bool" where
  "spec_matching_reply token sq d =
     (let ihl = 4 * unat (d ! 0 AND 0xF) in
      20 \<le> length d \<and> drop_bit 4 (d ! 0) = 4 \<and> 20 \<le> ihl \<and> ihl + 8 \<le> length d
      \<and> d ! ihl = 0
      \<and> unat (d ! (ihl + 4)) * 256 + unat (d ! (ihl + 5)) = unat token
      \<and> unat (d ! (ihl + 6)) * 256 + unat (d ! (ihl + 7)) = unat sq)"

text \<open>
  The bytes of a datagram that the two header reads leave in the buffer: none after
  a read that came up short, the bytes behind the fixed part when the IPv4 header is
  refused, the bytes behind the ICMP header otherwise.
\<close>

definition unread_after_headers :: "u8 list \<Rightarrow> u8 list" where
  "unread_after_headers d =
     (let ihl = 4 * unat (d ! 0 AND 0xF) in
      if length d < 20 then []
      else if ihl < 20 \<or> drop_bit 4 (d ! 0) \<noteq> 4 then drop 20 d
      else if length d < ihl + 8 then []
      else drop (ihl + 8) d)"

text \<open>What \<open>start_receive\<close> leaves: a pending receive waits on an emptied buffer.\<close>

definition buffer_discarded :: "pinger \<Rightarrow> bool" where
  "buffer_discarded st \<longleftrightarrow> (receiving st \<longrightarrow> reply_buffer st = [])"

text \<open>
  What holds of the prober between completions while no send fails: every probe
  counted by the sequence number is on the wire, the count is not exceeded, and no
  wait is pending only when all probes are out.
\<close>

definition probes_accounted :: "pinger \<Rightarrow> bool" where
  "probes_accounted st \<longleftrightarrow>
     length (wire st) = unat (sequence_number st)
     \<and> sequence_number st \<le> count st
     \<and> (timer st = None \<longrightarrow> count st \<le> sequence_number st)"

text \<open>Concrete environments and datagrams for the examples.\<close>

definition no_send_fault :: "u8 \<Rightarrow> bool" where
  "no_send_fault sq = False"

definition second_send_fails :: "u8 \<Rightarrow> bool" where
  "second_send_fails sq = (sq = 2)"

definition example_pid :: u32 where
  "example_pid = 0x1234"

definition example_reply :: "u8 \<Rightarrow> u8 list" where
  "example_reply sq =
     [0x45, 0, 0, 28, 0, 0, 0, 0, 64, 1, 0, 0, 127, 0, 0, 1, 127, 0, 0, 1,
      0, 0, 0, 0, 0x12, 0x34, 0, sq]"

text \<open>
  The run used in the examples: process id 0x1234, destination 127.0.0.1, two probes,
  an interval of 1000 ms. \<open>example_waiting\<close> is the prober once the first probe is
  out and the receive is pending, \<open>example_done n\<close> the prober of a finished run that
  counted \<open>n\<close> replies.
\<close>

definition example_probe_1 :: "u8 list" where
  "example_probe_1 = [8, 0, 0xF3, 0xC6, 0x12, 0x34, 0, 1] @ probe_body"

definition example_probe_2 :: "u8 list" where
  "example_probe_2 = [8, 0, 0xF3, 0xC5, 0x12, 0x34, 0, 2] @ probe_body"

definition example_waiting :: pinger where
  "example_waiting =
     \<lparr>socket_open = True, timer = Some (1000, HandleTimeout), time_sent = 0,
      reply_buffer = [], receiving = True, destination = 0x7F000001, num_replies = 0,
      sequence_number = 1, count = 2, timer_interval = 1000,
      wire = [(0x7F000001, example_probe_1)]\<rparr>"

definition example_done :: "u64 \<Rightarrow> pinger" where
  "example_done n =
     \<lparr>socket_open = False, timer = None, time_sent = 1000,
      reply_buffer = [], receiving = False, destination = 0x7F000001, num_replies = n,
      sequence_number = 2, count = 2, timer_interval = 1000,
      wire = [(0x7F000001, example_probe_1), (0x7F000001, example_probe_2)]\<rparr>"

text \<open>The example prober once the second probe is out, sent at clock reading 1000.\<close>

definition example_second_sent :: pinger where
  "example_second_sent =
     \<lparr>socket_open = True, timer = Some (2000, HandleTimeout), time_sent = 1000,
      reply_buffer = [], receiving = True, destination = 0x7F000001, num_replies = 0,
      sequence_number = 2, count = 2, timer_interval = 1000,
      wire = [(0x7F000001, example_probe_1), (0x7F000001, example_probe_2)]\<rparr>"

section \<open>Words as numbers\<close>

lemma unat_u8_bound: "unat (x::u8) < 256"
  using unsigned_less [of x, where 'a = nat] by simp

lemma unat_u16_bound: "unat (x::u16) < 65536"
  using unsigned_less [of x, where 'a = nat] by simp

lemma unat_ucast_u8_u32: "unat (ucast (x::u8) :: u32) = unat x"
  using unat_u8_bound [of x] by (simp add: unsigned_ucast_eq take_bit_eq_mod)

lemma unat_ucast_u16_u32: "unat (ucast (x::u16) :: u32) = unat x"
  using unat_u16_bound [of x] by (simp add: unsigned_ucast_eq take_bit_eq_mod)

lemma unat_ucast_u8_u16: "unat (ucast (x::u8) :: u16) = unat x"
  using unat_u8_bound [of x] by (simp add: unsigned_ucast_eq take_bit_eq_mod)

lemma unat_u32_bound: "unat (x::u32) < 4294967296"
  using unsigned_less [of x, where 'a = nat] by simp

lemma unat_hi_u32: "unat (push_bit 8 (ucast (x::u8)) :: u32) = unat x * 256"
  using unat_u8_bound [of x] unfolding unsigned_push_bit_eq
  by (simp add: unat_ucast_u8_u32 push_bit_eq_mult take_bit_eq_mod)

lemma unat_hi_u16: "unat (push_bit 8 (ucast (x::u8)) :: u16) = unat x * 256"
  using unat_u8_bound [of x] unfolding unsigned_push_bit_eq
  by (simp add: unat_ucast_u8_u16 push_bit_eq_mult take_bit_eq_mod)

lemma unat_checksum_body:
  "unat (checksum_body acc body) = (unat acc + sum_list (body_words body)) mod 2 ^ 32"
proof (induction acc body rule: checksum_body.induct)
  case (1 acc)
  then show ?case using unat_u32_bound [of acc] by simp
next
  case (2 acc x)
  then show ?case by (simp add: unat_word_ariths unat_hi_u32)
next
  case (3 acc x y rest)
  then show ?case
    by (simp add: unat_word_ariths unat_hi_u32 unat_ucast_u8_u32 mod_simps add.assoc)
qed

lemma unat_decode: "unat (icmp_decode rep a b) = unat (rep ! a) * 256 + unat (rep ! b)"
  using unat_u8_bound [of "rep ! a"] unat_u8_bound [of "rep ! b"]
  by (simp add: icmp_decode_def unat_word_ariths unat_hi_u16 unat_ucast_u8_u16)

lemma type_code_or_add:
  "(push_bit 8 (ucast (t::u8)) OR ucast (c::u8) :: u16) = push_bit 8 (ucast t) + ucast c"
proof -
  have "(push_bit 8 (ucast t) :: u16) AND ucast c = 0"
    by (rule bit_word_eqI) (auto simp: bit_simps dest: bit_imp_le_length)
  then show ?thesis by (simp add: disjunctive_add_eq_or)
qed

lemma unat_type_code:
  "unat (push_bit 8 (ucast (t::u8)) OR ucast (c::u8) :: u16) = unat t * 256 + unat c"
  using unat_u8_bound [of t] unat_u8_bound [of c]
  by (simp add: type_code_or_add unat_word_ariths unat_hi_u16 unat_ucast_u8_u16)

lemma unat_and_ffff: "unat ((x::u32) AND 0xFFFF) = unat x mod 65536"
proof -
  have "(0xFFFF::u32) = mask 16" by (simp add: mask_eq_exp_minus_1)
  then have "x AND 0xFFFF = take_bit 16 x" by (simp add: take_bit_eq_mask)
  then have "unat (x AND 0xFFFF) = take_bit 16 (unat x)"
    by (simp only: unsigned_take_bit_eq)
  then show ?thesis by (simp add: take_bit_eq_mod)
qed

lemma ucast_not_u32_u16: "(ucast (NOT (x::u32)) :: u16) = NOT (of_nat (unat x))"
proof -
  have "(ucast (NOT x) :: u16) = NOT (ucast x)"
    by (rule bit_word_eqI) (auto simp: bit_simps)
  then show ?thesis by simp
qed


lemma decode_encode_u16:
  "(push_bit 8 (ucast (ucast (drop_bit 8 (n::u16)) :: u8)) + ucast (ucast (n AND 0xFF) :: u8) :: u16) = n"
proof -
  let ?hi = "push_bit 8 (ucast (ucast (drop_bit 8 n) :: u8)) :: u16"
  let ?lo = "ucast (ucast (n AND 0xFF) :: u8) :: u16"
  have ff: "(0xFF::u16) = mask 8" by (simp add: mask_eq_exp_minus_1)
  have "?hi AND ?lo = 0"
    by (rule bit_word_eqI) (auto simp: bit_simps dest: bit_imp_le_length)
  then have "?hi + ?lo = ?hi OR ?lo" by (simp add: disjunctive_add_eq_or)
  also have "\<dots> = n"
    unfolding ff by (rule bit_word_eqI) (auto simp: bit_simps)
  finally show ?thesis .
qed

lemma icmp_decode_encode:
  "a < length rep \<Longrightarrow> b < length rep \<Longrightarrow> a \<noteq> b \<Longrightarrow>
   icmp_decode (icmp_encode rep a b n) a b = n"
  by (simp add: icmp_decode_def icmp_encode_def decode_encode_u16)

lemma unat_sum0:
  "unat (push_bit 8 (ucast (icmp_type header)) + ucast (icmp_code header)
         + ucast (icmp_identifier header) + ucast (icmp_sequence_number header) :: u32)
   = unat (icmp_type header) * 256 + unat (icmp_code header)
     + unat (icmp_identifier header) + unat (icmp_sequence_number header)"
  using unat_u8_bound [of "icmp_type header"] unat_u8_bound [of "icmp_code header"]
    unat_u16_bound [of "icmp_identifier header"] unat_u16_bound [of "icmp_sequence_number header"]
  by (simp add: unat_word_ariths unat_hi_u32 unat_ucast_u8_u32 unat_ucast_u16_u32)

lemma unat_fold_twice:
  "unat (drop_bit 16 (x::u32) + (x AND 0xFFFF) + drop_bit 16 (drop_bit 16 x + (x AND 0xFFFF)))
   = spec_fold_twice (unat x)"
proof -
  let ?s = "unat x"
  have b: "?s < 4294967296" by (rule unat_u32_bound)
  have "unat (drop_bit 16 x + (x AND 0xFFFF)) = (?s div 65536 + ?s mod 65536) mod 4294967296"
    by (simp add: unat_word_ariths unat_drop_bit_eq drop_bit_eq_div unat_and_ffff mod_simps)
  moreover have small: "?s div 65536 + ?s mod 65536 < 131072" using b by simp
  ultimately have f: "unat (drop_bit 16 x + (x AND 0xFFFF)) = ?s div 65536 + ?s mod 65536"
    by simp
  have "unat (drop_bit 16 x + (x AND 0xFFFF) + drop_bit 16 (drop_bit 16 x + (x AND 0xFFFF)))
        = (unat (drop_bit 16 x + (x AND 0xFFFF)) + unat (drop_bit 16 x + (x AND 0xFFFF)) div 65536) mod 4294967296"
    by (simp add: unat_word_ariths unat_drop_bit_eq drop_bit_eq_div)
  then show ?thesis
    using small by (simp add: f spec_fold_twice_def Let_def)
qed

lemma checksum_word:
  "(ucast (NOT (drop_bit 16 (x::u32) + (x AND 0xFFFF) + drop_bit 16 (drop_bit 16 x + (x AND 0xFFFF)))) :: u16)
   = NOT (of_nat (spec_fold_twice (unat x)))"
  by (simp only: ucast_not_u32_u16 unat_fold_twice)

lemma compute_checksum_eq:
  assumes "spec_word_sum header body < 2 ^ 32"
  shows "compute_checksum header body = icmp_set_checksum header (spec_internet_checksum header body)"
proof -
  let ?sum0 = "push_bit 8 (ucast (icmp_type header)) + ucast (icmp_code header)
         + ucast (icmp_identifier header) + ucast (icmp_sequence_number header) :: u32"
  have "unat (checksum_body ?sum0 body) = spec_word_sum header body mod 2 ^ 32"
    by (simp only: unat_checksum_body unat_sum0 spec_word_sum_def unat_type_code)
  with assms have "unat (checksum_body ?sum0 body) = spec_word_sum header body" by simp
  then show ?thesis
    unfolding compute_checksum_def Let_def spec_internet_checksum_def
    by (simp only: checksum_word)
qed

lemma ff_word: "(acc::u32) + push_bit 8 (ucast (0xFF::u8)) + ucast (0xFF::u8) = acc + 0xFFFF"
  by simp

lemma checksum_body_replicate:
  "checksum_body acc (replicate (2 * n) 0xFF) = acc + of_nat n * 0xFFFF"
proof (induction n arbitrary: acc)
  case 0
  then show ?case by simp
next
  case (Suc n)
  have r: "replicate (2 * Suc n) (0xFF::u8) = 0xFF # 0xFF # replicate (2 * n) 0xFF" by simp
  have "checksum_body acc (replicate (2 * Suc n) 0xFF)
        = checksum_body (acc + push_bit 8 (ucast (0xFF::u8)) + ucast (0xFF::u8)) (replicate (2 * n) 0xFF)"
    by (simp only: r checksum_body.simps)
  also have "\<dots> = (acc + 0xFFFF) + of_nat n * 0xFFFF"
    by (simp only: ff_word Suc)
  also have "\<dots> = acc + of_nat (Suc n) * 0xFFFF"
    by (simp add: distrib_right)
  finally show ?case .
qed

section \<open>Decoding the IPv4 header\<close>

lemma unat_and_0xF: "unat ((x::u8) AND 0xF) \<le> 15"
proof -
  have "unat (x AND 0xF) \<le> unat (0xF :: u8)"
    by (rule word_and_le1 [THEN word_le_nat_alt [THEN iffD1]])
  then show ?thesis by simp
qed

lemma unat_ipv4_header_length:
  "unat (ipv4_header_length rep) = 4 * unat (rep ! 0 AND 0xF)"
  using unat_and_0xF [of "rep ! 0"]
  by (simp add: ipv4_header_length_def unat_word_ariths unat_ucast_u8_u16)

lemma ipv4_options_length_neg:
  "ipv4_options_length rep < 0 \<longleftrightarrow> 4 * unat (rep ! 0 AND 0xF) < 20"
  unfolding ipv4_options_length_def uint_nat unat_ipv4_header_length by linarith

lemma ipv4_options_length_le_40: "\<not> 40 < ipv4_options_length rep"
  using unat_and_0xF [of "rep ! 0"]
  unfolding ipv4_options_length_def uint_nat unat_ipv4_header_length by linarith

lemma nat_ipv4_options_length:
  "nat (ipv4_options_length rep) = 4 * unat (rep ! 0 AND 0xF) - 20"
  unfolding ipv4_options_length_def uint_nat unat_ipv4_header_length by linarith


lemma store_fixed:
  "20 \<le> length d \<Longrightarrow> store ipv4_header_init 0 (take 20 d) = take 20 d @ replicate 40 0"
  by (simp add: store_def ipv4_header_init_def)

lemma store_fixed_nth:
  "20 \<le> length d \<Longrightarrow> i < 20 \<Longrightarrow> store ipv4_header_init 0 (take 20 d) ! i = d ! i"
  by (simp add: store_fixed nth_append)

lemma store_nothing: "off \<le> length rep \<Longrightarrow> store rep off [] = rep"
  by (simp add: store_def)

lemma ipv4_extract_short:
  "length d < 20 \<Longrightarrow> failbit (fst (ipv4_extract (istream_of d) ipv4_header_init))"
  by (simp add: ipv4_extract_def is_read_def istream_of_def setstate_failbit_def Let_def
      split: prod.splits)

lemma ipv4_extract_long:
  assumes "20 \<le> length d"
  shows "ipv4_extract (istream_of d) ipv4_header_init =
     (let h1 = store ipv4_header_init 0 (take 20 d);
          hl = 4 * unat (d ! 0 AND 0xF)
      in if hl < 20 \<or> drop_bit 4 (d ! 0) AND 0xF \<noteq> 4
         then (\<lparr>buf = drop 20 d, failbit = True\<rparr>, h1)
         else if length d < hl then (\<lparr>buf = [], failbit = True\<rparr>, store h1 20 (drop 20 d))
         else (\<lparr>buf = drop hl d, failbit = False\<rparr>, store h1 20 (take (hl - 20) (drop 20 d))))"
proof -
  define h1 where "h1 = store ipv4_header_init 0 (take 20 d)"
  define hl where "hl = 4 * unat (d ! 0 AND 0xF)"
  have len: "length h1 = 60"
    using assms by (simp add: h1_def store_fixed)
  have b0: "h1 ! 0 = d ! 0"
    using assms by (simp add: h1_def store_fixed_nth)
  have rd: "is_read (istream_of d) 20 = (take 20 d, \<lparr>buf = drop 20 d, failbit = False\<rparr>)"
    using assms by (simp add: is_read_def istream_of_def)
  have v: "ipv4_version h1 = drop_bit 4 (d ! 0) AND 0xF"
    by (simp add: ipv4_version_def b0)
  have neg: "ipv4_options_length h1 < 0 \<longleftrightarrow> hl < 20"
    by (simp only: ipv4_options_length_neg b0 hl_def)
  have n: "nat (ipv4_options_length h1) = hl - 20"
    by (simp only: nat_ipv4_options_length b0 hl_def)
  have unf: "ipv4_extract (istream_of d) ipv4_header_init =
      (let s1 = \<lparr>buf = drop 20 d, failbit = False\<rparr>;
           s2 = (if ipv4_version h1 \<noteq> 4 then setstate_failbit s1 else s1)
       in if hl < 20 then (setstate_failbit s2, h1)
          else (let (opts, s3) = is_read s2 (hl - 20) in (s3, store h1 20 opts)))"
    by (simp add: ipv4_extract_def rd Let_def h1_def [symmetric] neg n ipv4_options_length_le_40)
  consider (short) "hl < 20" | (badv) "20 \<le> hl" "drop_bit 4 (d ! 0) AND 0xF \<noteq> 4"
    | (trunc) "20 \<le> hl" "drop_bit 4 (d ! 0) AND 0xF = 4" "length d < hl"
    | (good) "20 \<le> hl" "drop_bit 4 (d ! 0) AND 0xF = 4" "hl \<le> length d"
    by linarith
  then have "ipv4_extract (istream_of d) ipv4_header_init =
     (if hl < 20 \<or> drop_bit 4 (d ! 0) AND 0xF \<noteq> 4
         then (\<lparr>buf = drop 20 d, failbit = True\<rparr>, h1)
         else if length d < hl then (\<lparr>buf = [], failbit = True\<rparr>, store h1 20 (drop 20 d))
         else (\<lparr>buf = drop hl d, failbit = False\<rparr>, store h1 20 (take (hl - 20) (drop 20 d))))"
  proof cases
    case short
    then show ?thesis by (simp add: unf v setstate_failbit_def Let_def)
  next
    case badv
    then show ?thesis
      by (simp add: unf v setstate_failbit_def Let_def is_read_def store_nothing len)
  next
    case trunc
    then have "length d - 20 < hl - 20" using assms by linarith
    with trunc show ?thesis
      by (simp add: unf v setstate_failbit_def Let_def is_read_def)
  next
    case good
    then have "\<not> length d - 20 < hl - 20" using assms by linarith
    moreover have "hl - 20 + 20 = hl" using good by simp
    ultimately show ?thesis using good
      by (simp add: unf v setstate_failbit_def Let_def is_read_def)
  qed
  then show ?thesis by (simp add: Let_def h1_def hl_def)
qed



lemma ipv4_extract_fail_iff:
  "failbit (fst (ipv4_extract (istream_of d) ipv4_header_init)) \<longleftrightarrow>
     length d < 20 \<or> drop_bit 4 (d ! 0) AND 0xF \<noteq> 4
     \<or> 4 * unat (d ! 0 AND 0xF) < 20 \<or> length d < 4 * unat (d ! 0 AND 0xF)"
proof (cases "length d < 20")
  case True
  then show ?thesis by (simp add: ipv4_extract_short)
next
  case False
  then have "20 \<le> length d" by simp
  then show ?thesis by (auto simp: ipv4_extract_long Let_def)
qed


lemma canonical_first_byte:
  "drop_bit 4 (0x45::u8) AND 0xF = 4" "unat ((0x45::u8) AND 0xF) = 5"
  by simp_all





section \<open>The checksum against its definition\<close>

lemma body_words_replicate:
  "sum_list (body_words (replicate (2 * n) 0xFF)) = n * 65535"
proof (induction n)
  case 0
  then show ?case by simp
next
  case (Suc n)
  have "replicate (2 * Suc n) (0xFF::u8) = 0xFF # 0xFF # replicate (2 * n) 0xFF" by simp
  then show ?case by (simp add: Suc)
qed

lemma body_words_bound: "sum_list (body_words body) \<le> ((length body + 1) div 2) * 65535"
proof (induction body rule: body_words.induct)
  case 1
  then show ?case by simp
next
  case (2 x)
  then show ?case using unat_u8_bound [of x] by simp
next
  case (3 x y rest)
  then show ?case using unat_u8_bound [of x] unat_u8_bound [of y] by simp
qed

lemma spec_word_sum_bound:
  assumes "length body \<le> 131068"
  shows "spec_word_sum header body < 2 ^ 32"
proof -
  have "sum_list (body_words body) \<le> ((length body + 1) div 2) * 65535"
    by (rule body_words_bound)
  also have "\<dots> \<le> 65534 * 65535" using assms by simp
  finally have "sum_list (body_words body) \<le> 65534 * 65535" .
  moreover have "unat (push_bit 8 (ucast (icmp_type header)) OR ucast (icmp_code header) :: u16) < 65536"
    by (rule unat_u16_bound)
  moreover have "unat (icmp_identifier header) < 65536" by (rule unat_u16_bound)
  moreover have "unat (icmp_sequence_number header) < 65536" by (rule unat_u16_bound)
  ultimately show ?thesis by (simp add: spec_word_sum_def)
qed

lemma icmp_encode_other:
  "i \<noteq> a \<Longrightarrow> i \<noteq> b \<Longrightarrow> icmp_encode rep a b n ! i = rep ! i"
  by (simp add: icmp_encode_def)

lemma length_icmp_encode: "length (icmp_encode rep a b n) = length rep"
  by (simp add: icmp_encode_def)

text \<open>
  Claim C3, as amended. For every 8-byte ICMP header and every body whose 16-bit words
  sum, with the header words, to less than \<open>2 ^ 32\<close> (every body of at most 131068
  bytes, by \<open>spec_word_sum_bound\<close>), \<open>compute_checksum\<close> writes into the checksum
  field the Internet checksum as the specification defines it, and leaves the other
  header fields as they were.
\<close>

theorem compute_checksum_internet_checksum:
  assumes "length header = 8" and "spec_word_sum header body < 2 ^ 32"
  shows "compute_checksum header body
           = icmp_set_checksum header (spec_internet_checksum header body)
       \<and> icmp_checksum (compute_checksum header body) = spec_internet_checksum header body
       \<and> icmp_type (compute_checksum header body) = icmp_type header
       \<and> icmp_code (compute_checksum header body) = icmp_code header
       \<and> icmp_identifier (compute_checksum header body) = icmp_identifier header
       \<and> icmp_sequence_number (compute_checksum header body) = icmp_sequence_number header"
proof -
  have eq: "compute_checksum header body
           = icmp_set_checksum header (spec_internet_checksum header body)"
    using assms(2) by (rule compute_checksum_eq)
  have "icmp_checksum (icmp_set_checksum header n) = n" for n
    using assms(1) by (simp add: icmp_checksum_def icmp_set_checksum_def icmp_decode_encode)
  moreover have "icmp_set_checksum header n ! i = header ! i" if "i \<noteq> 2" "i \<noteq> 3" for n i
    using that by (simp add: icmp_set_checksum_def icmp_encode_other)
  ultimately show ?thesis
    by (simp add: eq icmp_type_def icmp_code_def icmp_identifier_def
        icmp_sequence_number_def icmp_decode_def)
qed

text \<open>Claim C3 at the header of a first probe with the payload the prober sends.\<close>

theorem compute_checksum_internet_checksum_witness:
  "length [8, 0, 0, 0, 0x12, 0x34, 0, 1 :: u8] = 8
   \<and> spec_word_sum [8, 0, 0, 0, 0x12, 0x34, 0, 1] probe_body < 2 ^ 32
   \<and> icmp_checksum (compute_checksum [8, 0, 0, 0, 0x12, 0x34, 0, 1] probe_body)
       = spec_internet_checksum [8, 0, 0, 0, 0x12, 0x34, 0, 1] probe_body"
proof -
  have l: "length [8, 0, 0, 0, 0x12, 0x34, 0, 1 :: u8] = 8" by simp
  have s: "spec_word_sum [8, 0, 0, 0, 0x12, 0x34, 0, 1] probe_body < 2 ^ 32"
    by (rule spec_word_sum_bound) (simp add: probe_body_def)
  from compute_checksum_internet_checksum [OF l s] l s show ?thesis by blast
qed

text \<open>
  Claim C3 as first stated, for every body, fails: over 131076 bytes 0xFF the
  \<open>unsigned int\<close> accumulator wraps, and the code stores 1 where the defined
  checksum is 0.
\<close>

theorem compute_checksum_wraps_counterexample:
  "length icmp_header_init = 8
   \<and> icmp_checksum (compute_checksum icmp_header_init (replicate (2 * 65538) 0xFF)) = 1
   \<and> spec_internet_checksum icmp_header_init (replicate (2 * 65538) 0xFF) = 0"
proof -
  have "icmp_checksum (compute_checksum icmp_header_init (replicate (2 * 65538) 0xFF)) = 1"
    unfolding compute_checksum_def Let_def checksum_body_replicate
    by (simp add: icmp_header_init_def icmp_type_def icmp_code_def icmp_identifier_def
        icmp_sequence_number_def icmp_decode_def icmp_set_checksum_def icmp_checksum_def
        icmp_encode_def)
  moreover have "spec_internet_checksum icmp_header_init (replicate (2 * 65538) 0xFF) = 0"
    unfolding spec_internet_checksum_def spec_word_sum_def body_words_replicate
    by (simp add: spec_fold_twice_def icmp_header_init_def Let_def icmp_type_def icmp_code_def
        icmp_identifier_def icmp_sequence_number_def icmp_decode_def)
  ultimately show ?thesis by (simp add: icmp_header_init_def)
qed

section \<open>The receive step\<close>

lemma version_nibble: "drop_bit 4 (x::u8) AND 0xF = drop_bit 4 x"
proof -
  have "drop_bit 4 x AND mask 4 = drop_bit 4 x"
    by (rule bit_word_eqI) (auto simp: bit_simps dest: bit_imp_le_length)
  then show ?thesis by (simp add: mask_eq_exp_minus_1)
qed

lemma icmp_extract_failed:
  "failbit s \<Longrightarrow> failbit (fst (icmp_extract s header))"
  by (simp add: icmp_extract_def is_read_def)

lemma icmp_extract_good:
  "\<not> failbit s \<Longrightarrow> 8 \<le> length (buf s) \<Longrightarrow>
   icmp_extract s icmp_header_init = (s\<lparr>buf := drop 8 (buf s)\<rparr>, take 8 (buf s))"
  by (simp add: icmp_extract_def is_read_def store_def icmp_header_init_def)

lemma icmp_extract_short:
  "length (buf s) < 8 \<Longrightarrow> failbit (fst (icmp_extract s header))"
  by (simp add: icmp_extract_def is_read_def)

lemma uint_eq_iff_unat:
  "uint (a::'a::len word) = uint (b::'b::len word) \<longleftrightarrow> unat a = unat b"
  unfolding uint_nat by (rule of_nat_eq_iff)

lemma word_eq_unat_u16: "(a::u16) = b \<longleftrightarrow> unat a = unat b"
  by (simp add: word_unat_eq_iff)

lemma accept_iff:
  "(let r = icmp_extract (fst (ipv4_extract (istream_of d) ipv4_header_init)) icmp_header_init
    in \<not> failbit (fst r) \<and> icmp_type (snd r) = echo_reply \<and> icmp_identifier (snd r) = token
       \<and> uint (icmp_sequence_number (snd r)) = uint sq)
   \<longleftrightarrow> spec_matching_reply token (sq::u8) d"
proof -
  define hl where "hl = 4 * unat (d ! 0 AND 0xF)"
  define s1 where "s1 = fst (ipv4_extract (istream_of d) ipv4_header_init)"
  define r where "r = icmp_extract s1 icmp_header_init"
  consider (bad) "length d < 20 \<or> drop_bit 4 (d ! 0) \<noteq> 4 \<or> hl < 20 \<or> length d < hl"
    | (short) "20 \<le> length d" "drop_bit 4 (d ! 0) = 4" "20 \<le> hl" "hl \<le> length d" "length d < hl + 8"
    | (good) "20 \<le> length d" "drop_bit 4 (d ! 0) = 4" "20 \<le> hl" "hl + 8 \<le> length d"
    by linarith
  then have "(\<not> failbit (fst r) \<and> icmp_type (snd r) = echo_reply \<and> icmp_identifier (snd r) = token
       \<and> uint (icmp_sequence_number (snd r)) = uint sq)
   \<longleftrightarrow> spec_matching_reply token sq d"
  proof cases
    case bad
    then have "failbit s1"
      by (auto simp: s1_def ipv4_extract_fail_iff version_nibble hl_def)
    then have "failbit (fst r)" by (simp add: r_def icmp_extract_failed)
    moreover have "\<not> spec_matching_reply token sq d"
      using bad by (auto simp: spec_matching_reply_def Let_def hl_def)
    ultimately show ?thesis by simp
  next
    case short
    then have "s1 = \<lparr>buf = drop hl d, failbit = False\<rparr>"
      by (simp add: s1_def ipv4_extract_long Let_def version_nibble hl_def)
    then have "failbit (fst r)"
      using short by (simp add: r_def icmp_extract_short)
    moreover have "\<not> spec_matching_reply token sq d"
      using short by (simp add: spec_matching_reply_def Let_def hl_def)
    ultimately show ?thesis by simp
  next
    case good
    then have s1: "s1 = \<lparr>buf = drop hl d, failbit = False\<rparr>"
      by (simp add: s1_def ipv4_extract_long Let_def version_nibble hl_def)
    have r: "r = (\<lparr>buf = drop (hl + 8) d, failbit = False\<rparr>, take 8 (drop hl d))"
      using good by (simp add: r_def s1 icmp_extract_good add.commute)
    have nth: "snd r ! i = d ! (hl + i)" if "i < 8" for i
      using that good by (simp add: r)
    have sq: "uint (icmp_sequence_number (snd r)) = uint sq
        \<longleftrightarrow> unat (d ! (hl + 6)) * 256 + unat (d ! (hl + 7)) = unat sq"
      by (simp add: uint_eq_iff_unat icmp_sequence_number_def unat_decode nth)
    have ident: "icmp_identifier (snd r) = token
        \<longleftrightarrow> unat (d ! (hl + 4)) * 256 + unat (d ! (hl + 5)) = unat token"
      by (simp add: word_eq_unat_u16 icmp_identifier_def unat_decode nth)
    have ty: "icmp_type (snd r) = echo_reply \<longleftrightarrow> d ! hl = 0"
      using nth [of 0] by (simp add: icmp_type_def echo_reply_def)
    have "\<not> failbit (fst r)" by (simp add: r)
    then show ?thesis
      using good unfolding sq ident ty
      by (simp add: spec_matching_reply_def Let_def hl_def [symmetric])
  qed
  then show ?thesis by (simp add: Let_def r_def s1_def)
qed

lemma handle_receive_unfold:
  "handle_receive pid st d =
     (let r = icmp_extract (fst (ipv4_extract (istream_of (reply_buffer st @ d)) ipv4_header_init))
                icmp_header_init;
          st1 = st\<lparr>reply_buffer := buf (fst r)\<rparr>;
          st2 = (if \<not> failbit (fst r) \<and> icmp_type (snd r) = echo_reply
                    \<and> icmp_identifier (snd r) = get_identifier pid
                    \<and> uint (icmp_sequence_number (snd r)) = uint (sequence_number st)
                 then st1\<lparr>num_replies := num_replies st + 1\<rparr> else st1)
      in if sequence_number st < count st then start_receive st2 else st2)"
  by (simp add: handle_receive_def Let_def split: prod.splits)

lemma icmp_extract_failed_eq:
  "failbit s \<Longrightarrow> fst (icmp_extract s header) = s"
  by (simp add: icmp_extract_def is_read_def)

lemma icmp_extract_short_eq:
  "\<not> failbit s \<Longrightarrow> length (buf s) < 8 \<Longrightarrow>
   fst (icmp_extract s header) = \<lparr>buf = [], failbit = True\<rparr>"
  by (simp add: icmp_extract_def is_read_def)

lemma ipv4_extract_short_eq:
  "length d < 20 \<Longrightarrow>
   fst (ipv4_extract (istream_of d) ipv4_header_init) = \<lparr>buf = [], failbit = True\<rparr>"
  by (simp add: ipv4_extract_def is_read_def istream_of_def setstate_failbit_def Let_def
      split: prod.splits)

lemma unread_eq:
  "buf (fst (icmp_extract (fst (ipv4_extract (istream_of d) ipv4_header_init)) icmp_header_init))
   = unread_after_headers d"
proof -
  define hl where "hl = 4 * unat (d ! 0 AND 0xF)"
  define s1 where "s1 = fst (ipv4_extract (istream_of d) ipv4_header_init)"
  consider (none) "length d < 20"
    | (refused) "20 \<le> length d" "hl < 20 \<or> drop_bit 4 (d ! 0) \<noteq> 4"
    | (cut) "20 \<le> length d" "drop_bit 4 (d ! 0) = 4" "20 \<le> hl" "length d < hl"
    | (short) "20 \<le> length d" "drop_bit 4 (d ! 0) = 4" "20 \<le> hl" "hl \<le> length d"
        "length d < hl + 8"
    | (good) "20 \<le> length d" "drop_bit 4 (d ! 0) = 4" "20 \<le> hl" "hl + 8 \<le> length d"
    by linarith
  then have "buf (fst (icmp_extract s1 icmp_header_init)) = unread_after_headers d"
  proof cases
    case none
    then have "s1 = \<lparr>buf = [], failbit = True\<rparr>"
      by (simp add: s1_def ipv4_extract_short_eq)
    with none show ?thesis
      by (simp add: icmp_extract_failed_eq unread_after_headers_def)
  next
    case refused
    then have "s1 = \<lparr>buf = drop 20 d, failbit = True\<rparr>"
      by (auto simp: s1_def ipv4_extract_long Let_def version_nibble hl_def)
    with refused show ?thesis
      by (auto simp: icmp_extract_failed_eq unread_after_headers_def Let_def hl_def)
  next
    case cut
    then have "s1 = \<lparr>buf = [], failbit = True\<rparr>"
      by (simp add: s1_def ipv4_extract_long Let_def version_nibble hl_def)
    with cut show ?thesis
      by (simp add: icmp_extract_failed_eq unread_after_headers_def Let_def hl_def)
  next
    case short
    then have "s1 = \<lparr>buf = drop hl d, failbit = False\<rparr>"
      by (simp add: s1_def ipv4_extract_long Let_def version_nibble hl_def)
    with short show ?thesis
      by (simp add: icmp_extract_short_eq unread_after_headers_def Let_def hl_def)
  next
    case good
    then have "s1 = \<lparr>buf = drop hl d, failbit = False\<rparr>"
      by (simp add: s1_def ipv4_extract_long Let_def version_nibble hl_def)
    with good show ?thesis
      by (simp add: icmp_extract_good unread_after_headers_def Let_def hl_def add.commute)
  qed
  then show ?thesis by (simp add: s1_def)
qed

lemma handle_receive_explicit:
  assumes "reply_buffer st = []"
  shows "handle_receive pid st d =
     (if sequence_number st < count st
      then st\<lparr>num_replies := (if spec_matching_reply (get_identifier pid) (sequence_number st) d
                               then num_replies st + 1 else num_replies st),
              reply_buffer := [], receiving := True\<rparr>
      else st\<lparr>num_replies := (if spec_matching_reply (get_identifier pid) (sequence_number st) d
                               then num_replies st + 1 else num_replies st),
              reply_buffer := unread_after_headers d\<rparr>)"
  using assms accept_iff [of d "get_identifier pid" "sequence_number st", unfolded Let_def]
    unread_eq [of d]
  by (simp add: handle_receive_unfold Let_def start_receive_def)

lemma handle_receive_keeps:
  "timer (handle_receive pid st d) = timer st"
  "count (handle_receive pid st d) = count st"
  "sequence_number (handle_receive pid st d) = sequence_number st"
  "wire (handle_receive pid st d) = wire st"
  "socket_open (handle_receive pid st d) = socket_open st"
  "time_sent (handle_receive pid st d) = time_sent st"
  "timer_interval (handle_receive pid st d) = timer_interval st"
  "destination (handle_receive pid st d) = destination st"
  by (simp_all add: handle_receive_unfold Let_def start_receive_def)

lemma io_step_datagram:
  assumes "receiving st" "socket_open st" "reply_buffer st = []"
  shows "io_step pid send_fails (Datagram d) st =
     Inr (if sequence_number st < count st
          then st\<lparr>num_replies :=
                    (if spec_matching_reply (get_identifier pid) (sequence_number st) (take 1024 d)
                     then num_replies st + 1 else num_replies st)\<rparr>
          else st\<lparr>num_replies :=
                    (if spec_matching_reply (get_identifier pid) (sequence_number st) (take 1024 d)
                     then num_replies st + 1 else num_replies st),
                  reply_buffer := unread_after_headers (take 1024 d),
                  receiving := False\<rparr>)"
proof -
  let ?st = "st\<lparr>receiving := False\<rparr>"
  have b: "reply_buffer ?st = []" using assms by simp
  have same: "st\<lparr>receiving := True, reply_buffer := []\<rparr> = st"
    using assms by simp
  show ?thesis
  proof (cases "sequence_number st < count st")
    case True
    with assms handle_receive_explicit [OF b, of pid "take 1024 d"] same show ?thesis
      by (simp add: io_step_def)
  next
    case False
    with assms handle_receive_explicit [OF b, of pid "take 1024 d"] show ?thesis
      by (simp add: io_step_def)
  qed
qed

lemma io_step_matching:
  assumes "receiving st" "socket_open st" "reply_buffer st = []"
    and "sequence_number st < count st"
    and "spec_matching_reply (get_identifier pid) (sequence_number st) (take 1024 d)"
  shows "io_step pid send_fails (Datagram d) st = Inr (st\<lparr>num_replies := num_replies st + 1\<rparr>)"
  using assms by (simp add: io_step_datagram)



lemma run_events_append:
  "run_events pid send_fails (evs @ evs') st =
     (case run_events pid send_fails evs st of
        Inl x \<Rightarrow> Inl x
      | Inr st' \<Rightarrow> run_events pid send_fails evs' st')"
  by (induction evs arbitrary: st) (simp_all split: sum.splits)

lemma start_receive_discards: "buffer_discarded (start_receive st)"
  by (simp add: buffer_discarded_def start_receive_def)

lemma handle_receive_discards:
  "\<not> receiving st \<Longrightarrow> buffer_discarded (handle_receive pid st d)"
  by (simp add: buffer_discarded_def handle_receive_unfold Let_def start_receive_def)

lemma abort_receive_discards:
  "buffer_discarded st \<Longrightarrow> buffer_discarded (abort_receive pid st)"
  by (simp add: abort_receive_def handle_receive_discards)

lemma io_step_discards:
  assumes "buffer_discarded st" and "io_step pid send_fails ev st = Inr st'"
  shows "buffer_discarded st'"
proof (cases ev)
  case (Expire t)
  show ?thesis
  proof (cases "timer st")
    case None
    with Expire assms show ?thesis by (simp add: io_step_def)
  next
    case (Some w)
    obtain expiry h where w: "w = (expiry, h)" by (cases w)
    show ?thesis
    proof (cases "t < expiry")
      case True
      with Expire Some w assms show ?thesis by (simp add: io_step_def)
    next
      case False
      show ?thesis
      proof (cases h)
        case HandleTimeout
        have "buffer_discarded (handle_timeout (st\<lparr>timer := None\<rparr>))"
          using assms(1) by (simp add: buffer_discarded_def handle_timeout_def)
        then have "buffer_discarded (abort_receive pid (handle_timeout (st\<lparr>timer := None\<rparr>)))"
          by (rule abort_receive_discards)
        with Expire Some w False HandleTimeout assms(2) show ?thesis
          by (simp add: io_step_def)
      next
        case StartSend
        with Expire Some w False assms show ?thesis
          by (auto simp: io_step_def start_send_def buffer_discarded_def Let_def
              split: if_splits)
      qed
    qed
  qed
next
  case (Datagram d)
  show ?thesis
  proof (cases "receiving st \<and> socket_open st")
    case True
    with Datagram assms(2) handle_receive_discards [of "st\<lparr>receiving := False\<rparr>" pid "take 1024 d"]
    show ?thesis by (simp add: io_step_def)
  next
    case False
    with Datagram assms show ?thesis by (auto simp: io_step_def)
  qed
qed

lemma run_events_discards:
  assumes "buffer_discarded st" and "run_events pid send_fails evs st = Inr st'"
  shows "buffer_discarded st'"
  using assms
proof (induction evs arbitrary: st)
  case Nil
  then show ?case by simp
next
  case (Cons ev evs)
  show ?case
  proof (cases "io_step pid send_fails ev st")
    case (Inl x)
    with Cons.prems(2) show ?thesis by simp
  next
    case (Inr st1)
    with Cons.prems(1) have "buffer_discarded st1" by (simp add: io_step_discards)
    with Cons.IH [of st1] Cons.prems(2) Inr show ?thesis by simp
  qed
qed

lemma pending_receive_on_empty_buffer:
  assumes "run_events pid send_fails evs (start_receive st0) = Inr st" and "receiving st"
  shows "reply_buffer st = []"
  using run_events_discards [OF start_receive_discards assms(1)] assms(2)
  by (simp add: buffer_discarded_def)

lemma run_events_replicate_matching:
  assumes "receiving st" "socket_open st" "reply_buffer st = []"
    and "sequence_number st < count st"
    and "spec_matching_reply (get_identifier pid) (sequence_number st) (take 1024 d)"
  shows "run_events pid send_fails (replicate n (Datagram d)) st
         = Inr (st\<lparr>num_replies := num_replies st + of_nat n\<rparr>)"
  using assms
proof (induction n arbitrary: st)
  case 0
  then show ?case by simp
next
  case (Suc n)
  let ?st = "st\<lparr>num_replies := num_replies st + 1\<rparr>"
  have step: "io_step pid send_fails (Datagram d) st = Inr ?st"
    using Suc.prems by (rule io_step_matching)
  have "run_events pid send_fails (replicate n (Datagram d)) ?st
         = Inr (?st\<lparr>num_replies := num_replies ?st + of_nat n\<rparr>)"
    using Suc.prems by (intro Suc.IH) simp_all
  then show ?case by (simp add: step add.assoc)
qed

section \<open>Runs of the example\<close>

lemma drain_None: "timer st = None \<Longrightarrow> drain pid send_fails now st = Inr st"
  by (subst drain.simps) simp

lemma drain_Some:
  "timer st = Some (expiry, h) \<Longrightarrow>
   drain pid send_fails now st =
     (case io_step pid send_fails (Expire (max now expiry)) st of
        Inl x \<Rightarrow> Inl x
      | Inr st' \<Rightarrow> drain pid send_fails (max now expiry) st')"
  by (subst drain.simps) simp

lemma last_clock_datagrams: "last_clock now (replicate n (Datagram d)) = now"
  by (induction n) simp_all

lemma example_first_send:
  "start_send example_pid no_send_fault 0
     \<lparr>socket_open = True, timer = None, time_sent = 0, reply_buffer = [],
      receiving = False, destination = 0x7F000001, num_replies = 0, sequence_number = 0,
      count = 2, timer_interval = 1000, wire = []\<rparr>
   = Inr (example_waiting\<lparr>receiving := False\<rparr>)"
  by code_simp

lemma ping_run_example:
  "ping_run example_pid True no_send_fault evs 0x7F000001 2 1000 =
     Inr (object_after (io_context_run example_pid no_send_fault evs example_waiting))"
proof -
  have "start_receive (example_waiting\<lparr>receiving := False\<rparr>) = example_waiting"
    by (simp add: start_receive_def example_waiting_def)
  then show ?thesis
    by (simp add: ping_run_def pinger_init_def example_first_send)
qed

lemma drain_example_256:
  "drain example_pid no_send_fault 0 (example_waiting\<lparr>num_replies := 256\<rparr>)
     = Inr (example_done 256)"
  by code_simp


lemma example_reply_matches:
  "spec_matching_reply (get_identifier example_pid) (sequence_number example_waiting)
     (take 1024 (example_reply 1))"
  by code_simp

lemma example_waiting_fields:
  "receiving example_waiting" "socket_open example_waiting" "reply_buffer example_waiting = []"
  "sequence_number example_waiting < count example_waiting"
  by (simp_all add: example_waiting_def)

lemma run_events_example:
  "run_events example_pid no_send_fault (replicate n (Datagram (example_reply 1))) example_waiting
   = Inr (example_waiting\<lparr>num_replies := of_nat n\<rparr>)"
proof -
  have "num_replies example_waiting = 0" by (simp add: example_waiting_def)
  with run_events_replicate_matching [OF example_waiting_fields example_reply_matches,
      of no_send_fault n]
  show ?thesis by simp
qed

text \<open>
  A completion that comes late: the first wait of the example run completes at clock
  reading 1500, and the second probe is sent then, not at the expiry 1000.
\<close>

lemma late_timeout_example:
  "object_after (io_context_run example_pid no_send_fault [Expire 1500] example_waiting)
   = \<lparr>socket_open = False, timer = None, time_sent = 1500,
      reply_buffer = [], receiving = False, destination = 0x7F000001, num_replies = 0,
      sequence_number = 2, count = 2, timer_interval = 1000,
      wire = [(0x7F000001, example_probe_1), (0x7F000001, example_probe_2)]\<rparr>"
  by code_simp

lemma ping_run_example_256:
  "ping_run example_pid True no_send_fault (replicate 256 (Datagram (example_reply 1)))
     0x7F000001 2 1000 = Inr (example_done 256)"
  using run_events_example [of 256]
  by (simp add: ping_run_example io_context_run_def drain_example_256 object_after_def
      last_clock_datagrams)


lemma example_second_probe_run:
  "run_events example_pid no_send_fault [Expire 1000, Expire 1000] example_waiting
   = Inr example_second_sent"
  by code_simp

lemma example_start_receive: "start_receive example_waiting = example_waiting"
  by (simp add: start_receive_def example_waiting_def)

text \<open>
  Claim C2. In every state the event loop reaches after \<open>start_receive\<close>, a datagram
  that completes the pending receive raises the verified-reply counter by one exactly
  when, cut to the 1024 bytes prepared, it carries an IPv4 header and an ICMP header
  that both parse, with type Echo Reply, the identifier of this process and the
  current sequence number; in every other case the counter keeps its value. While
  the sequence number is below the count nothing else changes: the receive is started
  again on an emptied buffer, so the datagram is gone and the prober is as it was
  but for the counter. Once the sequence number has reached the count the receive is
  not started again, and the bytes the header reads left stay in the buffer, which
  nothing reads any more. The state after the datagram is the state the event loop
  reaches with the datagram added to its completions.
\<close>

theorem receive_step_counts_matching_replies:
  assumes "run_events pid send_fails evs (start_receive st0) = Inr st"
    and "receiving st" and "socket_open st"
  shows "io_step pid send_fails (Datagram d) st =
     Inr (if sequence_number st < count st
          then st\<lparr>num_replies :=
                    (if spec_matching_reply (get_identifier pid) (sequence_number st) (take 1024 d)
                     then num_replies st + 1 else num_replies st)\<rparr>
          else st\<lparr>num_replies :=
                    (if spec_matching_reply (get_identifier pid) (sequence_number st) (take 1024 d)
                     then num_replies st + 1 else num_replies st),
                  reply_buffer := unread_after_headers (take 1024 d),
                  receiving := False\<rparr>)
     \<and> run_events pid send_fails (evs @ [Datagram d]) (start_receive st0)
         = io_step pid send_fails (Datagram d) st"
proof -
  have "reply_buffer st = []"
    using assms(1,2) by (rule pending_receive_on_empty_buffer)
  with assms(2,3) have "io_step pid send_fails (Datagram d) st =
     Inr (if sequence_number st < count st
          then st\<lparr>num_replies :=
                    (if spec_matching_reply (get_identifier pid) (sequence_number st) (take 1024 d)
                     then num_replies st + 1 else num_replies st)\<rparr>
          else st\<lparr>num_replies :=
                    (if spec_matching_reply (get_identifier pid) (sequence_number st) (take 1024 d)
                     then num_replies st + 1 else num_replies st),
                  reply_buffer := unread_after_headers (take 1024 d),
                  receiving := False\<rparr>)"
    by (rule io_step_datagram)
  moreover have "run_events pid send_fails (evs @ [Datagram d]) (start_receive st0)
         = io_step pid send_fails (Datagram d) st"
    using assms(1) by (simp add: run_events_append split: sum.splits)
  ultimately show ?thesis by (rule conjI)
qed

text \<open>
  Claim C2 in the example run. While the first probe is out, a reply to probe 1 is
  counted, and a reply carrying sequence number 2 is dropped and leaves the prober as
  it was. Once the second and last probe is out, a reply to probe 2 is counted and
  the receive stays down.
\<close>

theorem receive_step_counts_matching_replies_witness:
  "run_events example_pid no_send_fault [] (start_receive example_waiting) = Inr example_waiting
   \<and> receiving example_waiting \<and> socket_open example_waiting
   \<and> io_step example_pid no_send_fault (Datagram (example_reply 1)) example_waiting
       = Inr (example_waiting\<lparr>num_replies := 1\<rparr>)
   \<and> io_step example_pid no_send_fault (Datagram (example_reply 2)) example_waiting
       = Inr example_waiting
   \<and> run_events example_pid no_send_fault [Expire 1000, Expire 1000]
        (start_receive example_waiting) = Inr example_second_sent
   \<and> receiving example_second_sent \<and> socket_open example_second_sent
   \<and> io_step example_pid no_send_fault (Datagram (example_reply 2)) example_second_sent
       = Inr (example_second_sent\<lparr>num_replies := 1, receiving := False\<rparr>)"
proof -
  have r1: "run_events example_pid no_send_fault [] (start_receive example_waiting)
      = Inr example_waiting"
    by (simp add: example_start_receive)
  have r2: "run_events example_pid no_send_fault [Expire 1000, Expire 1000]
      (start_receive example_waiting) = Inr example_second_sent"
    by (simp only: example_start_receive example_second_probe_run)
  have f2: "receiving example_second_sent" "socket_open example_second_sent"
    by (simp_all add: example_second_sent_def)
  have m1: "spec_matching_reply (get_identifier example_pid) (sequence_number example_waiting)
     (take 1024 (example_reply 1))"
    and n1: "\<not> spec_matching_reply (get_identifier example_pid) (sequence_number example_waiting)
     (take 1024 (example_reply 2))"
    and m2: "spec_matching_reply (get_identifier example_pid) (sequence_number example_second_sent)
     (take 1024 (example_reply 2))"
    by code_simp+
  have u: "unread_after_headers (take 1024 (example_reply 2)) = []"
    by code_simp
  have v: "num_replies example_waiting = 0" "sequence_number example_waiting < count example_waiting"
    "num_replies example_second_sent = 0" "reply_buffer example_second_sent = []"
    "\<not> sequence_number example_second_sent < count example_second_sent"
    by (simp_all add: example_waiting_def example_second_sent_def)
  have a: "io_step example_pid no_send_fault (Datagram (example_reply 1)) example_waiting
       = Inr (example_waiting\<lparr>num_replies := 1\<rparr>)"
    using receive_step_counts_matching_replies
      [OF r1 example_waiting_fields(1,2), of "example_reply 1"] m1 v
    by simp
  have b: "io_step example_pid no_send_fault (Datagram (example_reply 2)) example_waiting
       = Inr example_waiting"
    using receive_step_counts_matching_replies
      [OF r1 example_waiting_fields(1,2), of "example_reply 2"] n1 v
    by simp
  have c: "io_step example_pid no_send_fault (Datagram (example_reply 2)) example_second_sent
       = Inr (example_second_sent\<lparr>num_replies := 1, receiving := False\<rparr>)"
    using receive_step_counts_matching_replies [OF r2 f2, of "example_reply 2"] m2 u v
    by simp
  from r1 r2 f2 example_waiting_fields(1,2) a b c show ?thesis by blast
qed





text \<open>
  Claim C1 does not hold of the code. The counter \<open>num_replies_\<close> is a \<open>size_t\<close>,
  and the returned expression cuts it to eight bits before it compares it with half
  of the count. In the example run 256 copies of the reply to probe 1 arrive: the
  counter is 256, more than half of the count 2, and \<open>ping\<close> returns false.
\<close>

theorem ping_verdict_wrong_at_256_replies:
  "ping_run example_pid True no_send_fault (replicate 256 (Datagram (example_reply 1)))
     0x7F000001 2 1000 = Inr (example_done 256)
   \<and> unat (num_replies (example_done 256)) = 256
   \<and> unat (count (example_done 256)) div 2 = 1
   \<and> ping example_pid True no_send_fault (replicate 256 (Datagram (example_reply 1)))
       0x7F000001 2 1000 = Inr False"
proof -
  have "\<not> ping_result (example_done 256)" by code_simp
  then show ?thesis
    by (simp add: ping_def ping_run_example_256) (simp add: example_done_def)
qed

section \<open>The count and the verdict\<close>

lemma unat_suc_below:
  fixes a b :: u8
  assumes "a < b"
  shows "unat (a + 1) = unat a + 1"
proof -
  have "unat a < unat b" using assms by (simp add: word_less_nat_alt)
  moreover have "unat b < 256" by (rule unat_u8_bound)
  ultimately show ?thesis by (simp add: unat_word_ariths)
qed

lemma start_send_keeps:
  "count (object_after (start_send pid send_fails now st)) = count st"
  "num_replies (object_after (start_send pid send_fails now st)) = num_replies st"
  by (simp_all add: start_send_def object_after_def Let_def)

lemma abort_receive_keeps:
  "timer (abort_receive pid st) = timer st"
  "count (abort_receive pid st) = count st"
  "sequence_number (abort_receive pid st) = sequence_number st"
  "wire (abort_receive pid st) = wire st"
  "socket_open (abort_receive pid st) = socket_open st"
  "time_sent (abort_receive pid st) = time_sent st"
  by (simp_all add: abort_receive_def handle_receive_keeps)

lemma io_step_count:
  "count (object_after (io_step pid send_fails ev st)) = count st"
proof (cases ev)
  case (Expire t)
  show ?thesis
  proof (cases "timer st")
    case None
    with Expire show ?thesis by (simp add: io_step_def object_after_def)
  next
    case (Some w)
    obtain expiry h where w: "w = (expiry, h)" by (cases w)
    show ?thesis
    proof (cases h)
      case HandleTimeout
      with Expire Some w show ?thesis
        by (simp add: io_step_def object_after_def abort_receive_keeps handle_timeout_def)
    next
      case StartSend
      with Expire Some w start_send_keeps(1) [of pid send_fails t "st\<lparr>timer := None\<rparr>"]
      show ?thesis
        by (simp add: io_step_def) (simp add: object_after_def)
    qed
  qed
next
  case (Datagram d)
  then show ?thesis
    by (simp add: io_step_def object_after_def handle_receive_keeps)
qed

lemma run_events_count:
  "count (object_after (run_events pid send_fails evs st)) = count st"
proof (induction evs arbitrary: st)
  case Nil
  then show ?case by (simp add: object_after_def)
next
  case (Cons ev evs)
  show ?case
  proof (cases "io_step pid send_fails ev st")
    case (Inl x)
    with io_step_count [of pid send_fails ev st] show ?thesis by simp
  next
    case (Inr st')
    with io_step_count [of pid send_fails ev st] Cons.IH [of st'] show ?thesis
      by (simp add: object_after_def)
  qed
qed

lemma drain_count:
  "count (object_after (drain pid send_fails now st)) = count st"
proof (induction pid send_fails now st rule: drain.induct)
  case (1 pid send_fails now st)
  show ?case
  proof (cases "timer st")
    case None
    then show ?thesis by (simp add: drain_None object_after_def)
  next
    case (Some w)
    obtain expiry h where w: "w = (expiry, h)" by (cases w)
    show ?thesis
    proof (cases "io_step pid send_fails (Expire (max now expiry)) st")
      case (Inl x)
      with io_step_count [of pid send_fails "Expire (max now expiry)" st] Some w show ?thesis
        by (simp add: drain_Some)
    next
      case (Inr st')
      with io_step_count [of pid send_fails "Expire (max now expiry)" st] Some w
        "1.IH" [OF Some w [symmetric] Inr]
      show ?thesis by (simp add: drain_Some object_after_def)
    qed
  qed
qed

lemma io_context_run_count:
  "count (object_after (io_context_run pid send_fails evs st)) = count st"
proof (cases "run_events pid send_fails evs st")
  case (Inl x)
  with run_events_count [of pid send_fails evs st] show ?thesis
    by (simp add: io_context_run_def)
next
  case (Inr st')
  with run_events_count [of pid send_fails evs st]
    drain_count [of pid send_fails "last_clock 0 evs" st']
  show ?thesis by (simp add: io_context_run_def object_after_def)
qed

lemma clamp_is_max: "(if c < 2 then 2 else c) = max c (2::u8)"
  by (auto simp: max_def)

lemma ping_run_count:
  assumes "ping_run pid ok send_fails evs a c ms = Inr p"
  shows "count p = max c 2"
proof -
  from assms have ok by (simp add: ping_run_def pinger_init_def split: if_splits)
  define p0 where "p0 = \<lparr>socket_open = True, timer = None, time_sent = 0, reply_buffer = [],
                receiving = False, destination = a, num_replies = 0, sequence_number = 0,
                count = max c 2, timer_interval = ms, wire = []\<rparr>"
  have p: "p = object_after
                    (case start_send pid send_fails 0 p0 of
                       Inl x \<Rightarrow> Inl x
                     | Inr p1 \<Rightarrow> io_context_run pid send_fails evs (start_receive p1))"
    using assms \<open>ok\<close> by (simp add: ping_run_def pinger_init_def Let_def p0_def clamp_is_max)
  show ?thesis
  proof (cases "start_send pid send_fails 0 p0")
    case (Inl x)
    with start_send_keeps(1) [of pid send_fails 0 p0] show ?thesis by (simp add: p p0_def)
  next
    case (Inr p1)
    with start_send_keeps(1) [of pid send_fails 0 p0] have "count p1 = max c 2"
      by (simp add: object_after_def p0_def)
    with Inr io_context_run_count [of pid send_fails evs "start_receive p1"] show ?thesis
      by (simp add: p start_receive_def)
  qed
qed


lemma io_step_accounted:
  assumes "probes_accounted st" and "\<forall>sq. \<not> send_fails sq"
  shows "\<exists>st'. io_step pid send_fails ev st = Inr st' \<and> probes_accounted st'"
proof (cases ev)
  case (Expire t)
  show ?thesis
  proof (cases "timer st")
    case None
    with Expire assms show ?thesis by (simp add: io_step_def)
  next
    case (Some w)
    obtain expiry h where w: "w = (expiry, h)" by (cases w)
    show ?thesis
    proof (cases "t < expiry")
      case True
      with Expire Some w assms show ?thesis by (simp add: io_step_def)
    next
      case False
      show ?thesis
      proof (cases h)
        case HandleTimeout
        with Expire Some w False assms(1) show ?thesis
          by (auto simp: io_step_def probes_accounted_def abort_receive_keeps handle_timeout_def)
      next
        case StartSend
        show ?thesis
        proof (cases "count st \<le> sequence_number st")
          case True
          with Expire Some w False StartSend assms(1) show ?thesis
            by (simp add: io_step_def start_send_def probes_accounted_def)
        next
          case below: False
          then have lt: "sequence_number st < count st" by simp
          have "sequence_number st + 1 \<le> count st" using lt by (rule inc_le)
          with Expire Some w False StartSend assms lt below unat_suc_below [OF lt] show ?thesis
            by (simp add: io_step_def start_send_def probes_accounted_def Let_def)
        qed
      qed
    qed
  qed
next
  case (Datagram d)
  with assms(1) show ?thesis
    by (simp add: io_step_def probes_accounted_def handle_receive_keeps)
qed

lemma run_events_accounted:
  assumes "probes_accounted st" and "\<forall>sq. \<not> send_fails sq"
  shows "\<exists>st'. run_events pid send_fails evs st = Inr st' \<and> probes_accounted st'"
  using assms(1)
proof (induction evs arbitrary: st)
  case Nil
  then show ?case by simp
next
  case (Cons ev evs)
  from io_step_accounted [OF Cons.prems assms(2)]
  obtain st1 where s: "io_step pid send_fails ev st = Inr st1" and a: "probes_accounted st1"
    by blast
  from Cons.IH [OF a] s show ?case by simp
qed

lemma drain_accounted:
  assumes "probes_accounted st" and "\<forall>sq. \<not> send_fails sq"
  shows "\<exists>st'. drain pid send_fails now st = Inr st' \<and> probes_accounted st' \<and> timer st' = None"
  using assms
proof (induction pid send_fails now st rule: drain.induct)
  case (1 pid send_fails now st)
  show ?case
  proof (cases "timer st")
    case None
    with "1.prems" show ?thesis by (simp add: drain_None)
  next
    case (Some w)
    obtain expiry h where w: "w = (expiry, h)" by (cases w)
    from io_step_accounted [OF "1.prems"]
    obtain st1 where s: "io_step pid send_fails (Expire (max now expiry)) st = Inr st1"
      and a: "probes_accounted st1"
      by blast
    from "1.IH" [OF Some w [symmetric] s a "1.prems"(2)] Some w s show ?thesis
      by (simp add: drain_Some)
  qed
qed

lemma ping_run_sends_count:
  assumes "ping_run pid ok send_fails evs a c ms = Inr p" and "\<forall>sq. \<not> send_fails sq"
  shows "length (wire p) = unat (max c 2) \<and> sequence_number p = max c 2"
proof -
  from assms(1) have ok by (simp add: ping_run_def pinger_init_def split: if_splits)
  define p0 where "p0 = \<lparr>socket_open = True, timer = None, time_sent = 0, reply_buffer = [],
                receiving = False, destination = a, num_replies = 0, sequence_number = 0,
                count = max c 2, timer_interval = ms, wire = []\<rparr>"
  have p: "p = object_after
                    (case start_send pid send_fails 0 p0 of
                       Inl x \<Rightarrow> Inl x
                     | Inr p1 \<Rightarrow> io_context_run pid send_fails evs (start_receive p1))"
    using assms(1) \<open>ok\<close> by (simp add: ping_run_def pinger_init_def Let_def p0_def clamp_is_max)
  have two: "(2::u8) \<le> max c 2" by simp
  have "(0::u8) < 2" by simp
  from this two have pos: "(0::u8) < max c 2" by (rule less_le_trans)
  then have npos: "\<not> max c 2 \<le> (0::u8)" by simp
  have one: "(1::u8) \<le> max c 2" using inc_le [OF pos] by simp
  have "\<exists>p1. start_send pid send_fails 0 p0 = Inr p1 \<and> probes_accounted p1"
    using npos one assms(2)
    by (simp add: start_send_def Let_def p0_def probes_accounted_def)
  then obtain p1 where p1: "start_send pid send_fails 0 p0 = Inr p1" and a1: "probes_accounted p1"
    by blast
  have "probes_accounted (start_receive p1)"
    using a1 by (simp add: probes_accounted_def start_receive_def)
  from run_events_accounted [OF this assms(2)]
  obtain p2 where p2: "run_events pid send_fails evs (start_receive p1) = Inr p2"
    and a2: "probes_accounted p2"
    by blast
  from drain_accounted [OF a2 assms(2)]
  obtain p3 where p3: "drain pid send_fails (last_clock 0 evs) p2 = Inr p3"
    and a3: "probes_accounted p3"
    and t3: "timer p3 = None"
    by blast
  have e: "p = p3" by (simp add: p p1 io_context_run_def p2 p3 object_after_def)
  have c: "count p3 = max c 2" using assms(1) e ping_run_count by blast
  have "sequence_number p3 \<le> count p3" and "count p3 \<le> sequence_number p3"
    and l: "length (wire p3) = unat (sequence_number p3)"
    using a3 t3 by (simp_all add: probes_accounted_def)
  then have "sequence_number p3 = count p3" by (simp only: antisym)
  with l c e show ?thesis by simp
qed

lemma ping_run_socket_ok:
  "\<exists>p. ping_run pid True send_fails evs a c ms = Inr p"
  by (simp add: ping_run_def pinger_init_def Let_def)

lemma ping_result_nat:
  "ping_result p \<longleftrightarrow> unat (count p) div 2 < unat (num_replies p) mod 256"
proof -
  have "unat (ucast (num_replies p) :: u8) = unat (num_replies p) mod 256"
    by (simp add: unsigned_ucast_eq take_bit_eq_mod)
  moreover have "uint (count p) div 2 < uint (w::u8) \<longleftrightarrow> unat (count p) div 2 < unat w" for w
    unfolding uint_nat by arith
  ultimately show ?thesis by (simp add: ping_result_def)
qed

lemma ping_of_run:
  "ping_run pid ok send_fails evs a c ms = Inr p \<Longrightarrow>
   ping pid ok send_fails evs a c ms = Inr (ping_result p)"
  by (simp add: ping_def)

text \<open>
  A prober that has counted exactly 256 replies is judged unreachable whatever its
  count, so also a run of 255 probes that were all answered, one of them twice.
\<close>

lemma ping_result_at_256: "num_replies p = 256 \<Longrightarrow> \<not> ping_result p"
  by (simp add: ping_result_nat)

text \<open>
  Where a run has counted fewer than 256 replies the verdict is the strict majority:
  true exactly when the reply count is greater than half of the clamped count.
\<close>

lemma ping_verdict_below_256:
  assumes "ping_run pid ok send_fails evs a c ms = Inr p"
    and "unat (num_replies p) < 256"
  shows "ping pid ok send_fails evs a c ms = Inr (unat (max c 2) div 2 < unat (num_replies p))"
  using ping_of_run [OF assms(1)] ping_run_count [OF assms(1)] assms(2)
  by (simp add: ping_result_nat)

lemma drain_example_0:
  "drain example_pid no_send_fault 0 example_waiting = Inr (example_done 0)"
  by code_simp

lemma ping_run_example_none:
  "ping_run example_pid True no_send_fault [] 0x7F000001 2 1000 = Inr (example_done 0)"
  by (simp add: ping_run_example io_context_run_def drain_example_0 object_after_def)

lemma ping_run_clamp:
  "ping_run pid ok send_fails evs a c ms = ping_run pid ok send_fails evs a (max c 2) ms"
proof -
  have "(if max c 2 < 2 then 2 else max c 2) = (if c < 2 then 2 else c)"
    by (auto simp: max_def)
  then show ?thesis by (simp add: ping_run_def)
qed

text \<open>
  Claim C7. \<open>ping\<close> with the count \<open>c\<close> is \<open>ping\<close> with \<open>max c 2\<close>, so a count of 1
  behaves as 2 and a count of at least 2 is used as it is. The prober holds
  \<open>max c 2\<close> as its count when \<open>ping\<close> returns, and a run in which no send fails
  puts exactly \<open>max c 2\<close> probes on the wire.
\<close>

theorem ping_count_clamped:
  "ping_run pid ok send_fails evs a c ms = ping_run pid ok send_fails evs a (max c 2) ms
   \<and> ping pid ok send_fails evs a c ms = ping pid ok send_fails evs a (max c 2) ms
   \<and> ping pid ok send_fails evs a 1 ms = ping pid ok send_fails evs a 2 ms
   \<and> (\<forall>p. ping_run pid ok send_fails evs a c ms = Inr p \<longrightarrow>
         count p = max c 2
         \<and> ((\<forall>sq. \<not> send_fails sq) \<longrightarrow>
              length (wire p) = unat (max c 2) \<and> sequence_number p = max c 2))"
proof -
  have one: "max (1::u8) 2 = 2" by simp
  have "ping pid ok send_fails evs a 1 ms = ping pid ok send_fails evs a 2 ms"
    using ping_run_clamp [of pid ok send_fails evs a 1 ms] by (simp add: ping_def one)
  moreover have "ping pid ok send_fails evs a c ms = ping pid ok send_fails evs a (max c 2) ms"
    using ping_run_clamp [of pid ok send_fails evs a c ms] by (simp add: ping_def)
  ultimately show ?thesis
    using ping_run_clamp [of pid ok send_fails evs a c ms] ping_run_count ping_run_sends_count
    by blast
qed

text \<open>Claim C7 for the count 1 in the example environment: two probes are sent.\<close>

theorem ping_count_clamped_witness:
  "ping_run example_pid True no_send_fault [] 0x7F000001 1 1000 = Inr (example_done 0)
   \<and> (\<forall>sq. \<not> no_send_fault sq)
   \<and> count (example_done 0) = 2 \<and> length (wire (example_done 0)) = 2"
proof -
  have one: "max (1::u8) 2 = 2" by simp
  have nf: "\<forall>sq. \<not> no_send_fault sq" by (simp add: no_send_fault_def)
  note t = ping_count_clamped [of example_pid True no_send_fault "[]" "0x7F000001" 1 1000]
  from t have r: "ping_run example_pid True no_send_fault [] 0x7F000001 1 1000 = Inr (example_done 0)"
    by (simp add: one ping_run_example_none)
  with t nf have "count (example_done 0) = max 1 2
      \<and> length (wire (example_done 0)) = unat (max (1::u8) 2)"
    by blast
  with r nf show ?thesis by (simp add: one)
qed

text \<open>
  Claim C6 does not hold of the code. The socket is opened by the constructor of
  \<open>pinger\<close>, before the \<open>try\<close> block: when it cannot be opened the exception
  leaves \<open>ping\<close>. With the socket open \<open>ping\<close> always returns a verdict, also
  when a send fails: in the example run the second send fails after one reply was
  counted, and the verdict is false.
\<close>

theorem socket_failure_escapes_ping:
  "ping pid False send_fails evs a c ms = Inl system_error
   \<and> (\<exists>verdict. ping pid True send_fails evs a c ms = Inr verdict)
   \<and> ping example_pid True second_send_fails [Datagram (example_reply 1)] 0x7F000001 2 1000
       = Inr False"
proof -
  have "ping example_pid True second_send_fails [Datagram (example_reply 1)] 0x7F000001 2 1000
       = Inr False"
    by code_simp
  then show ?thesis
    by (simp add: ping_def ping_run_def pinger_init_def Let_def)
qed

section \<open>The send step and the timeout\<close>

lemma ucast_low_byte: "(ucast ((n::u16) AND 0xFF) :: u8) = ucast n"
proof -
  have "(ucast (n AND mask 8) :: u8) = ucast n"
    by (rule bit_word_eqI) (auto simp: bit_simps)
  then show ?thesis by (simp add: mask_eq_exp_minus_1)
qed

lemma ucast_high_byte_of_u8: "(ucast (drop_bit 8 (ucast (x::u8) :: u16)) :: u8) = 0"
  by (rule bit_word_eqI) (auto simp: bit_simps dest: bit_imp_le_length)

lemma ucast_u8_u16_u8: "(ucast (ucast (x::u8) :: u16) :: u8) = x"
  by (rule bit_word_eqI) (auto simp: bit_simps)

lemma list_update_Cons_numeral:
  "(x # xs)[numeral v := y] = x # xs[numeral v - 1 := y]"
  by (simp add: numeral_eq_Suc)

lemma list_update_Cons_1: "(x # xs)[1 := y] = x # xs[0 := y]"
  by simp

lemma icmp_header_init_bytes: "icmp_header_init = [0, 0, 0, 0, 0, 0, 0, 0]"
  by (simp add: icmp_header_init_def eval_nat_numeral)

lemma request_header:
  "icmp_set_sequence_number
     (icmp_set_identifier (icmp_set_code (icmp_set_type icmp_header_init echo_request) 0) tok)
     (ucast (sq::u8))
   = [8, 0, 0, 0, ucast (drop_bit 8 tok), ucast tok, 0, sq]"
  by (simp add: icmp_set_sequence_number_def icmp_set_identifier_def icmp_set_code_def
      icmp_set_type_def echo_request_def icmp_encode_def icmp_header_init_bytes
      list_update_Cons_numeral list_update_Cons_1
      ucast_low_byte ucast_high_byte_of_u8 ucast_u8_u16_u8)

lemma probe_body_bytes:
  "probe_body = [0x30, 0x31, 0x32, 0x33, 0x34, 0x35, 0x36, 0x37, 0x38, 0x39,
                 0x41, 0x42, 0x43, 0x44, 0x45, 0x46, 0x47, 0x48, 0x49, 0x4A, 0x4B, 0x4C, 0x4D,
                 0x4E, 0x4F, 0x50, 0x51, 0x52, 0x53, 0x54, 0x55, 0x56, 0x57, 0x58, 0x59, 0x5A]"
  by (simp add: probe_body_def)

lemma length_probe_body: "length probe_body = 36"
  by (simp add: probe_body_def)

lemma request_checksum:
  "compute_checksum [8, 0, 0, 0, hi, lo, 0, sq] probe_body
   = [8, 0, ucast (drop_bit 8 (spec_internet_checksum [8, 0, 0, 0, hi, lo, 0, sq] probe_body)),
      ucast (spec_internet_checksum [8, 0, 0, 0, hi, lo, 0, sq] probe_body), hi, lo, 0, sq]"
proof -
  have "spec_word_sum [8, 0, 0, 0, hi, lo, 0, sq] probe_body < 2 ^ 32"
    by (rule spec_word_sum_bound) (simp add: length_probe_body)
  then show ?thesis
    by (simp add: compute_checksum_eq icmp_set_checksum_def icmp_encode_def ucast_low_byte
        list_update_Cons_numeral list_update_Cons_1)
qed

lemma decode_bytes_u16:
  "(push_bit 8 (ucast (ucast (drop_bit 8 (n::u16)) :: u8)) + ucast (ucast n :: u8) :: u16) = n"
  using decode_encode_u16 [of n] by (simp add: ucast_low_byte)

lemma request_fields:
  "icmp_identifier [t, c, k1, k2, ucast (drop_bit 8 (tok::u16)), ucast tok, s1, s2] = tok"
  "icmp_checksum [t, c, ucast (drop_bit 8 (ck::u16)), ucast ck, i1, i2, s1, s2] = ck"
  "icmp_sequence_number [t, c, k1, k2, i1, i2, 0, sq] = ucast sq"
  "icmp_type [t, c, k1, k2, i1, i2, s1, s2] = t"
  "icmp_code [t, c, k1, k2, i1, i2, s1, s2] = c"
  by (simp_all add: icmp_identifier_def icmp_checksum_def icmp_sequence_number_def
      icmp_type_def icmp_code_def icmp_decode_def decode_bytes_u16)

lemma spec_word_sum_ignores_checksum:
  "spec_word_sum [t, c, k1, k2, i1, i2, s1, s2] body = spec_word_sum [t, c, 0, 0, i1, i2, s1, s2] body"
  by (simp add: spec_word_sum_def icmp_type_def icmp_code_def icmp_identifier_def
      icmp_sequence_number_def icmp_decode_def)

text \<open>
  Claim C8. A send step taken while the sequence number is below the count, whose
  \<open>send_to\<close> does not fail, hands to the socket one datagram for the destination:
  an 8-byte ICMP header with type 8 (Echo Request), code 0, the identifier of the
  process, the incremented sequence number in big-endian order and the checksum over
  header fields and body, followed by the 36 bytes of
  \<open>0123456789ABCDEFGHIJKLMNOPQRSTUVWXYZ\<close>. The step also stores the incremented
  sequence number and the send time and arms the timer one interval later.
\<close>

theorem start_send_datagram:
  assumes "sequence_number st < count st" and "\<not> send_fails (sequence_number st + 1)"
  shows "(let tok = get_identifier pid;
              sq = sequence_number st + 1;
              ck = spec_internet_checksum [8, 0, 0, 0, ucast (drop_bit 8 tok), ucast tok, 0, sq]
                     probe_body;
              hdr = [8, 0, ucast (drop_bit 8 ck), ucast ck, ucast (drop_bit 8 tok), ucast tok, 0, sq]
          in start_send pid send_fails now st
               = Inr (st\<lparr>sequence_number := sq, time_sent := now,
                         wire := wire st @ [(destination st, hdr @ probe_body)],
                         timer := Some (now + unat (timer_interval st), HandleTimeout)\<rparr>)
             \<and> length hdr = 8
             \<and> icmp_type hdr = echo_request \<and> echo_request = 8 \<and> icmp_code hdr = 0
             \<and> icmp_identifier hdr = tok
             \<and> icmp_sequence_number hdr = ucast sq
             \<and> icmp_checksum hdr = ck
             \<and> ck = spec_internet_checksum hdr probe_body
             \<and> probe_body = map of_char ''0123456789ABCDEFGHIJKLMNOPQRSTUVWXYZ''
             \<and> length probe_body = 36)"
proof -
  define tok where "tok = get_identifier pid"
  define sq where "sq = sequence_number st + 1"
  define ck where "ck = spec_internet_checksum
      [8, 0, 0, 0, ucast (drop_bit 8 tok), ucast tok, 0, sq] probe_body"
  define hdr where "hdr = [8, 0, ucast (drop_bit 8 ck), ucast ck, ucast (drop_bit 8 tok), ucast tok, 0, sq]"
  have send: "start_send pid send_fails now st
               = Inr (st\<lparr>sequence_number := sq, time_sent := now,
                         wire := wire st @ [(destination st, hdr @ probe_body)],
                         timer := Some (now + unat (timer_interval st), HandleTimeout)\<rparr>)"
    using assms
    by (simp add: start_send_def Let_def request_header request_checksum
        tok_def [symmetric] sq_def [symmetric] ck_def [symmetric] hdr_def [symmetric])
  have ws: "spec_word_sum hdr probe_body
      = spec_word_sum [8, 0, 0, 0, ucast (drop_bit 8 tok), ucast tok, 0, sq] probe_body"
    unfolding hdr_def by (rule spec_word_sum_ignores_checksum)
  have same: "ck = spec_internet_checksum hdr probe_body"
    by (simp only: ck_def spec_internet_checksum_def ws)
  have fields: "length hdr = 8" "icmp_type hdr = echo_request" "echo_request = 8" "icmp_code hdr = 0"
    "icmp_identifier hdr = tok" "icmp_sequence_number hdr = ucast sq" "icmp_checksum hdr = ck"
    by (simp_all add: hdr_def request_fields echo_request_def)
  show ?thesis
    unfolding Let_def tok_def [symmetric] sq_def [symmetric] ck_def [symmetric] hdr_def [symmetric]
    using send same fields by (simp add: length_probe_body probe_body_def)
qed


lemma example_checksum_1:
  "spec_internet_checksum [8, 0, 0, 0, 0x12, 0x34, 0, 1] probe_body = 0xF3C6"
  by (simp add: spec_internet_checksum_def spec_word_sum_def spec_fold_twice_def
      probe_body_def icmp_type_def icmp_code_def icmp_identifier_def
      icmp_sequence_number_def icmp_decode_def Let_def)

text \<open>Claim C8 for the first probe of the example run.\<close>

theorem start_send_datagram_witness:
  "sequence_number (example_waiting\<lparr>sequence_number := 0, wire := []\<rparr>)
     < count (example_waiting\<lparr>sequence_number := 0, wire := []\<rparr>)
   \<and> \<not> no_send_fault (sequence_number (example_waiting\<lparr>sequence_number := 0, wire := []\<rparr>) + 1)
   \<and> start_send example_pid no_send_fault 0 (example_waiting\<lparr>sequence_number := 0, wire := []\<rparr>)
       = Inr example_waiting"
proof -
  let ?st = "example_waiting\<lparr>sequence_number := 0, wire := []\<rparr>"
  have h1: "sequence_number ?st < count ?st" by (simp add: example_waiting_def)
  have h2: "\<not> no_send_fault (sequence_number ?st + 1)" by (simp add: no_send_fault_def)
  have tok: "(ucast (drop_bit 8 (get_identifier example_pid)) :: u8) = 0x12"
    "(ucast (get_identifier example_pid) :: u8) = 0x34"
    by (simp_all add: get_identifier_def example_pid_def)
  from h1 h2 start_send_datagram [where st = ?st and send_fails = no_send_fault
      and pid = example_pid and now = 0, unfolded Let_def]
  have "start_send example_pid no_send_fault 0 ?st = Inr example_waiting"
    by (simp add: tok example_checksum_1)
       (simp add: example_waiting_def example_probe_1_def)
  with h1 h2 show ?thesis by blast
qed

lemma io_step_no_timer:
  assumes "timer st = None"
  shows "\<exists>st'. io_step pid send_fails ev st = Inr st' \<and> timer st' = None \<and> wire st' = wire st"
  using assms by (cases ev) (simp_all add: io_step_def handle_receive_keeps)

lemma run_events_no_timer:
  assumes "timer st = None"
  shows "\<exists>st'. run_events pid send_fails evs st = Inr st' \<and> timer st' = None \<and> wire st' = wire st"
  using assms
proof (induction evs arbitrary: st)
  case Nil
  then show ?case by simp
next
  case (Cons ev evs)
  from io_step_no_timer [OF Cons.prems]
  obtain st1 where s: "io_step pid send_fails ev st = Inr st1" and t: "timer st1 = None"
    and w: "wire st1 = wire st"
    by blast
  from Cons.IH [OF t] s w show ?case by simp
qed

lemma io_context_run_no_timer:
  assumes "timer st = None"
  shows "\<exists>st'. io_context_run pid send_fails evs st = Inr st' \<and> wire st' = wire st"
proof -
  from run_events_no_timer [OF assms]
  obtain st1 where s: "run_events pid send_fails evs st = Inr st1" and t: "timer st1 = None"
    and w: "wire st1 = wire st"
    by blast
  then show ?thesis by (simp add: io_context_run_def drain_None)
qed

text \<open>
  Claim C5, as amended. When the wait armed by a send step (expiry: send time plus
  interval) completes at clock reading \<open>t\<close>, the handler sends nothing. If the
  sequence number has reached the count it closes the socket and arms nothing, and
  whatever completes afterwards no further probe is sent. Otherwise it arms the timer
  again, with the send step as handler, for the same expiry: send time plus interval,
  which has been reached. The next send step is performed on that subsequent expiry
  and not before it; the wait being due already, it can complete at the same clock
  reading \<open>t\<close>, with no further interval between the timeout check and the probe.
\<close>

theorem timeout_check:
  assumes "timer st = Some (expiry, HandleTimeout)"
    and "expiry = time_sent st + unat (timer_interval st)"
    and "expiry \<le> t"
  shows "\<exists>st'. io_step pid send_fails (Expire t) st = Inr st'
           \<and> wire st' = wire st \<and> sequence_number st' = sequence_number st
           \<and> count st' = count st
           \<and> (if count st \<le> sequence_number st
               then \<not> socket_open st' \<and> timer st' = None
                    \<and> (\<forall>evs. \<exists>st''. io_context_run pid send_fails evs st' = Inr st''
                                     \<and> wire st'' = wire st)
               else socket_open st' = socket_open st
                    \<and> timer st' = Some (expiry, StartSend)
                    \<and> time_sent st' = time_sent st
                    \<and> io_step pid send_fails (Expire t) st'
                        = start_send pid send_fails t (st'\<lparr>timer := None\<rparr>)
                    \<and> (\<forall>t'<expiry. io_step pid send_fails (Expire t') st' = Inr st'))"
proof -
  define st' where "st' = abort_receive pid (handle_timeout (st\<lparr>timer := None\<rparr>))"
  have step: "io_step pid send_fails (Expire t) st = Inr st'"
    using assms by (simp add: io_step_def st'_def)
  have keep: "wire st' = wire st" "sequence_number st' = sequence_number st" "count st' = count st"
    by (simp_all add: st'_def abort_receive_keeps handle_timeout_def)
  show ?thesis
  proof (cases "count st \<le> sequence_number st")
    case True
    then have c: "\<not> socket_open st'" "timer st' = None"
      by (simp_all add: st'_def abort_receive_keeps handle_timeout_def)
    from io_context_run_no_timer [OF c(2)] keep(1)
    have "\<forall>evs. \<exists>st''. io_context_run pid send_fails evs st' = Inr st'' \<and> wire st'' = wire st"
      by simp
    with True step keep c show ?thesis by simp
  next
    case False
    then have r: "socket_open st' = socket_open st" "timer st' = Some (expiry, StartSend)"
      "time_sent st' = time_sent st"
      using assms(2) by (simp_all add: st'_def abort_receive_keeps handle_timeout_def)
    have again: "io_step pid send_fails (Expire t) st'
                        = start_send pid send_fails t (st'\<lparr>timer := None\<rparr>)"
      using r(2) assms(3) by (simp add: io_step_def)
    have early: "\<forall>t'<expiry. io_step pid send_fails (Expire t') st' = Inr st'"
      using r(2) by (simp add: io_step_def)
    from False step keep r again early show ?thesis by simp
  qed
qed

lemma example_timeout_step:
  "io_step example_pid no_send_fault (Expire 1000) example_waiting
     = Inr (example_waiting\<lparr>timer := Some (1000, StartSend)\<rparr>)"
  by code_simp

lemma example_second_send:
  "start_send example_pid no_send_fault 1000 (example_waiting\<lparr>timer := None\<rparr>)
     = Inr example_second_sent"
  by code_simp

text \<open>
  Claim C5 in the example run: the check at clock reading 1000 arms the timer for
  1000 again, and the wait completing at 1000 sends the second probe.
\<close>

theorem timeout_check_witness:
  "timer example_waiting = Some (1000, HandleTimeout)
   \<and> (1000::nat) = time_sent example_waiting + unat (timer_interval example_waiting)
   \<and> (1000::nat) \<le> 1000
   \<and> io_step example_pid no_send_fault (Expire 1000) example_waiting
       = Inr (example_waiting\<lparr>timer := Some (1000, StartSend)\<rparr>)
   \<and> io_step example_pid no_send_fault (Expire 1000)
        (example_waiting\<lparr>timer := Some (1000, StartSend)\<rparr>)
       = Inr example_second_sent"
proof -
  have h1: "timer example_waiting = Some (1000, HandleTimeout)"
    and h2: "(1000::nat) = time_sent example_waiting + unat (timer_interval example_waiting)"
    by (simp_all add: example_waiting_def)
  have below: "\<not> count example_waiting \<le> sequence_number example_waiting"
    by (simp add: example_waiting_def word_le_nat_alt)
  have h3: "(1000::nat) \<le> 1000" by simp
  from timeout_check [OF h1 h2 h3, of example_pid no_send_fault] below example_timeout_step
  have "io_step example_pid no_send_fault (Expire 1000)
          (example_waiting\<lparr>timer := Some (1000, StartSend)\<rparr>)
        = start_send example_pid no_send_fault 1000
            (example_waiting\<lparr>timer := Some (1000, StartSend), timer := None\<rparr>)"
    by auto
  then have "io_step example_pid no_send_fault (Expire 1000)
        (example_waiting\<lparr>timer := Some (1000, StartSend)\<rparr>)
       = Inr example_second_sent"
    by (simp add: example_second_send)
  with h1 h2 h3 example_timeout_step show ?thesis by blast
qed

text \<open>
  Claim C5 as first stated fails: in the example run the timeout check happens at
  clock reading 1000, the timer is armed again for 1000 and not for 2000, and the
  second probe is sent at 1000, less than one interval after the check.
\<close>

theorem timeout_rearm_counterexample:
  "io_step example_pid no_send_fault (Expire 1000) example_waiting
     = Inr (example_waiting\<lparr>timer := Some (1000, StartSend)\<rparr>)
   \<and> run_events example_pid no_send_fault [Expire 1000, Expire 1000] example_waiting
       = Inr example_second_sent
   \<and> time_sent example_second_sent = 1000
   \<and> unat (timer_interval example_waiting) = 1000
   \<and> \<not> 1000 + unat (timer_interval example_waiting) \<le> time_sent example_second_sent"
proof -
  have "run_events example_pid no_send_fault [Expire 1000, Expire 1000] example_waiting
       = Inr example_second_sent"
    by code_simp
  then show ?thesis
    by (simp add: example_timeout_step) (simp add: example_second_sent_def example_waiting_def)
qed

end
